theory Spec2Isabelle
  imports Main "HOL-Library.Word"
begin

section \<open>Deletion mutator of kevlar's mutsim notebook (del.cpp)\<close>

text \<open>
  The embedding follows \<^verbatim>\<open>notebook/mutsim/src/del.cpp\<close>. The C++ types \<^verbatim>\<open>uint\<close> and
  \<^verbatim>\<open>ulong\<close> are the 32-bit and 64-bit unsigned integers of an LP64 platform, so their
  arithmetic wraps around; \<^verbatim>\<open>size_t\<close> is 64 bits wide as well.
\<close>

type_synonym uint = "32 word"
type_synonym ulong = "64 word"

text \<open>
  The ways a call can stop abnormally: the assertion on the junction length (line 29),
  the assertion on the number of k-mers (line 52), \<^verbatim>\<open>std::out_of_range\<close> thrown by
  \<^verbatim>\<open>substr\<close>, and a vector read past the end (line 72).
\<close>

datatype error =
    Junction_length_assertion
  | Kmer_count_assertion
  | Out_of_range
  | Index_out_of_bounds

subsection \<open>Collaborators declared outside del.cpp\<close>

text \<open>
  Modelled from the spec: the histogram accumulator (class Histogram is not part of
  del.cpp). The spec describes it as a mapping from a value to its occurrence count
  that supports incrementing a bucket.
\<close>

type_synonym histogram = "nat \<Rightarrow> nat"

definition empty_hist :: histogram where
  "empty_hist = (\<lambda>b. 0)"

definition increment :: "histogram \<Rightarrow> nat \<Rightarrow> histogram" where
  "increment h b = h(b := h b + 1)"

text \<open>
  Modelled from the spec: the counting table (class Counttable is not part of del.cpp).
  \<^verbatim>\<open>get_kmers\<close> yields the windows of width \<open>ksize\<close> at stride 1, in order, that is
  \<open>length s - ksize + 1\<close> of them; \<^verbatim>\<open>get_count\<close> is an exact-match lookup that
  answers 0 for a k-mer never observed.
\<close>

record counttable =
  ksize :: nat
  counts :: "string \<Rightarrow> uint"

definition get_kmers :: "counttable \<Rightarrow> string \<Rightarrow> string list" where
  "get_kmers ct s = map (\<lambda>j. take (ksize ct) (drop j s)) [0 ..< length s + 1 - ksize ct]"

definition get_count :: "counttable \<Rightarrow> string \<Rightarrow> uint" where
  "get_count ct kmer = counts ct kmer"

text \<open>
  The sampling policy (\<^verbatim>\<open>skip_nucl\<close>), the logger (\<^verbatim>\<open>logger.increment\<close>) and the
  text of a histogram (\<^verbatim>\<open>operator<<\<close>) are declared outside del.cpp and are opaque
  to it. They are parameters of the model: the policy and the logger each carry a
  state of their own, and \<open>show_mb\<close> stands for the fixed-point rendering of the
  logger's counter in megabases.
\<close>

record ('p, 'l) collaborators =
  skip_nucl :: "'p \<Rightarrow> bool \<times> 'p"
  logger_increment :: "'l \<Rightarrow> bool \<times> 'l"
  show_mb :: "'l \<Rightarrow> string"
  show_hist :: "histogram \<Rightarrow> string"

subsection \<open>State\<close>

text \<open>
  The fields of \<^verbatim>\<open>MutatorDel\<close> that del.cpp reads and writes. The logger's text sink
  is the field \<open>stream\<close>.
\<close>

record ('p, 'l) mutator =
  k :: uint
  limit :: ulong
  delcount :: ulong
  delsize :: uint
  abund_hist :: histogram
  unique_hist :: histogram
  sampler :: 'p
  logger :: 'l
  stream :: string

record deletion =
  sequence :: string
  abunds :: "uint list"

text \<open>
  Modelled from the spec: the base class constructor \<^verbatim>\<open>Mutator\<close>, to which the
  constructor of lines 5-9 hands \<open>ksize\<close>, the logger, \<open>maxabund\<close> and the limit, is not
  part of del.cpp; a new mutator has empty histograms. The constructor itself starts
  the deletion counter at 0 and stores \<open>delsize\<close>. The last argument of the model is
  the initial state of the sampling policy.
\<close>

definition MutatorDel :: "uint \<Rightarrow> uint \<Rightarrow> 'l \<Rightarrow> uint \<Rightarrow> ulong \<Rightarrow> 'p \<Rightarrow> ('p, 'l) mutator" where
  "MutatorDel ksz dsz l maxabund lim p =
     \<lparr>k = ksz, limit = lim, delcount = 0, delsize = dsz,
      abund_hist = empty_hist, unique_hist = empty_hist,
      sampler = p, logger = l, stream = []\<rparr>"

subsection \<open>Strings\<close>

text \<open>
  \<^verbatim>\<open>std::string::length\<close> and \<^verbatim>\<open>size\<close> as a \<^verbatim>\<open>size_t\<close>, and \<^verbatim>\<open>substr\<close>, which throws
  when the start lies beyond the end of the string and otherwise clips the length.
\<close>

definition length_str :: "string \<Rightarrow> ulong" where
  "length_str s = of_nat (length s)"

definition substr :: "string \<Rightarrow> ulong \<Rightarrow> ulong \<Rightarrow> error + string" where
  "substr s pos n =
     (if length s < unat pos then Inl Out_of_range
      else Inr (take (unat n) (drop (unat pos) s)))"

text \<open>\<^verbatim>\<open>c_str\<close> hands over the characters before the first NUL.\<close>

definition c_str :: "string \<Rightarrow> string" where
  "c_str s = takeWhile (\<lambda>c. c \<noteq> CHR 0x00) s"

definition newline :: char where
  "newline = CHR 0x0A"

text \<open>The decimal text of an unsigned number, as \<^verbatim>\<open>operator<<\<close> writes it.\<close>

definition digit :: "nat \<Rightarrow> char" where
  "digit d = ''0123456789'' ! d"

function decimal :: "nat \<Rightarrow> string" where
  "decimal n = (if n < 10 then [digit n] else decimal (n div 10) @ [digit (n mod 10)])"
  by pat_completeness auto
termination
  by (relation "measure (\<lambda>n. n)") auto

subsection \<open>The deletion event (lines 46-79)\<close>

text \<open>
  The loop of the constructor over the extracted k-mers (lines 53-60): the state is
  the abundance histogram, the abundance vector and the local tally of k-mers of
  abundance zero. The tally is an \<^verbatim>\<open>int\<close> that counts some of the k-mers, of which line
  52 has asserted that there are \<open>k\<close>; it is an integer here, and a histogram bucket is
  a natural number.
\<close>

fun tally :: "counttable \<Rightarrow> string list \<Rightarrow> histogram \<times> uint list \<times> int
    \<Rightarrow> histogram \<times> uint list \<times> int" where
  "tally ct [] acc = acc"
| "tally ct (kmer # kmers) (ah, av, unique_count) =
     (let kmer_freq = get_count ct (c_str kmer)
      in tally ct kmers
           (increment ah (unat kmer_freq),
            av @ [kmer_freq],
            if kmer_freq = 0 then unique_count + 1 else unique_count))"

definition Deletion :: "string \<Rightarrow> ('p, 'l) mutator \<Rightarrow> counttable
    \<Rightarrow> error + (deletion \<times> ('p, 'l) mutator)" where
  "Deletion sq m ct =
     (let kmers = get_kmers ct sq in
      if (of_nat (length kmers) :: ulong) \<noteq> ucast (k m) then Inl Kmer_count_assertion
      else
        (case tally ct kmers (abund_hist m, [], 0) of
           (ah, av, unique_count) \<Rightarrow>
             Inr (\<lparr>sequence = sq, abunds = av\<rparr>,
                  m\<lparr>abund_hist := ah,
                    unique_hist := increment (unique_hist m) (nat unique_count)\<rparr>)))"

text \<open>
  \<^verbatim>\<open>print\<close> (lines 64-79). Both loops count a \<^verbatim>\<open>uint\<close> from 0 up to \<open>k\<close>; the second
  reads \<^verbatim>\<open>abunds[i]\<close>, which is only defined inside the vector. A deletion refers to
  its mutator (\<^verbatim>\<open>mut\<close>); here the mutator is an argument, and the result is the new text
  of the sink.
\<close>

function print_spaces :: "uint \<Rightarrow> uint \<Rightarrow> string \<Rightarrow> string" where
  "print_spaces i kk out =
     (if i < kk then print_spaces (i + 1) kk (out @ [CHR '' '']) else out)"
  by pat_completeness auto
termination
proof (relation "measure (\<lambda>(i, kk, out). unat kk - unat i)")
  show "wf (measure (\<lambda>(i, kk, out). unat kk - unat i))"
    by simp
next
  fix i kk :: uint and out :: string
  assume "i < kk"
  then have "unat kk - unat (i + 1) < unat kk - unat i"
    by unat_arith
  then show "((i + 1, kk, out @ [CHR '' '']), i, kk, out)
      \<in> measure (\<lambda>(i, kk, out). unat kk - unat i)"
    by simp
qed

function print_abunds :: "uint \<Rightarrow> uint \<Rightarrow> uint list \<Rightarrow> string \<Rightarrow> error + string" where
  "print_abunds i kk av out =
     (if i < kk then
        (if length av \<le> unat i then Inl Index_out_of_bounds
         else print_abunds (i + 1) kk av
                ((if 0 < i then out @ [CHR '' ''] else out) @ decimal (unat (av ! unat i))))
      else Inr out)"
  by pat_completeness auto
termination
proof (relation "measure (\<lambda>(i, kk, av, out). unat kk - unat i)")
  show "wf (measure (\<lambda>(i, kk, av, out). unat kk - unat i))"
    by simp
next
  fix i kk :: uint and av :: "uint list" and out :: string
  assume "i < kk"
  then have "unat kk - unat (i + 1) < unat kk - unat i"
    by unat_arith
  then show "((i + 1, kk, av, (if 0 < i then out @ [CHR '' ''] else out) @ decimal (unat (av ! unat i))),
      i, kk, av, out) \<in> measure (\<lambda>(i, kk, av, out). unat kk - unat i)"
    by simp
qed

definition print :: "deletion \<Rightarrow> ('p, 'l) mutator \<Rightarrow> string \<Rightarrow> error + string" where
  "print del m out =
     (let out = out @ [CHR ''>''] @ sequence del @ [newline];
          out = print_spaces 0 (k m) out;
          out = out @ [CHR ''|''] @ [newline]
      in case print_abunds 0 (k m) (abunds del) out of
           Inl e \<Rightarrow> Inl e
         | Inr out \<Rightarrow> Inr (out @ [newline]))"

subsection \<open>The mutator (lines 11-44 and 81-84)\<close>

text \<open>
  Lines 23-28: the junction of the deletion point \<open>i\<close>. \<open>k - 1\<close> is computed in
  \<^verbatim>\<open>uint\<close> and then widened; the other operations are in \<^verbatim>\<open>ulong\<close>.
\<close>

definition delseq :: "uint \<Rightarrow> uint \<Rightarrow> string \<Rightarrow> ulong \<Rightarrow> error + string" where
  "delseq kk dsz sq i =
     (let min1 = i - ucast kk + 1;
          length1 = ucast (kk - 1);
          min2 = i + ucast dsz;
          length2 = ucast kk
      in case substr sq min1 length1 of
           Inl e \<Rightarrow> Inl e
         | Inr left \<Rightarrow>
             (case substr sq min2 length2 of
                Inl e \<Rightarrow> Inl e
              | Inr right \<Rightarrow> Inr (left @ right)))"

text \<open>Lines 34-39: the block written at a reporting checkpoint.\<close>

definition report :: "('p, 'l) collaborators \<Rightarrow> deletion \<Rightarrow> ('p, 'l) mutator
    \<Rightarrow> error + ('p, 'l) mutator" where
  "report c del m =
     (let out = stream m @ ''# ...processed '' @ show_mb c (logger m)
                  @ '' Mb of sequence'' @ [newline]
      in case print del m out of
           Inl e \<Rightarrow> Inl e
         | Inr out \<Rightarrow>
             Inr (m\<lparr>stream := out @ ''# '' @ show_hist c (abund_hist m) @ [newline]
                          @ ''# '' @ show_hist c (unique_hist m) @ [newline]\<rparr>))"

text \<open>
  One pass through the body of the loop (lines 15-41) at the deletion point \<open>i\<close>, on
  the running total and the mutator. It ends in \<^verbatim>\<open>break\<close>, or hands the state to the
  next iteration (after \<^verbatim>\<open>continue\<close> or at the end of the body), or aborts.
\<close>

datatype 'a flow = Break 'a | Next 'a

definition process_body :: "('p, 'l) collaborators \<Rightarrow> string \<Rightarrow> counttable \<Rightarrow> ulong
    \<Rightarrow> ulong \<times> ('p, 'l) mutator \<Rightarrow> error + (ulong \<times> ('p, 'l) mutator) flow" where
  "process_body c sq ct i st =
     (case st of (kmercount, m) \<Rightarrow>
        if 0 < limit m \<and> limit m < delcount m then Inr (Break (kmercount, m))
        else
          (case skip_nucl c (sampler m) of (skip, p) \<Rightarrow>
             (let m = m\<lparr>sampler := p\<rparr> in
              if skip then Inr (Next (kmercount, m))
              else
                (let m = m\<lparr>delcount := delcount m + 1\<rparr> in
                 case delseq (k m) (delsize m) sq i of
                   Inl e \<Rightarrow> Inl e
                 | Inr dsq \<Rightarrow>
                     if length_str dsq \<noteq> ucast (2 * k m - 1)
                     then Inl Junction_length_assertion
                     else
                       (case Deletion dsq m ct of
                          Inl e \<Rightarrow> Inl e
                        | Inr (del, m) \<Rightarrow>
                            (case logger_increment c (logger m) of (doprint, l) \<Rightarrow>
                               (let m = m\<lparr>logger := l\<rparr> in
                                case (if doprint then report c del m else Inr m) of
                                  Inl e \<Rightarrow> Inl e
                                | Inr m \<Rightarrow> Inr (Next (kmercount + ucast (k m), m)))))))))"

text \<open>
  The loop header (line 14). The comparison is made in 64 bits, so for a string whose
  length is \<open>2 ^ 64 - 1\<close> the condition would hold at every \<open>i\<close>; \<open>None\<close> stands for a
  loop that does not end.
\<close>

definition in_window :: "('p, 'l) mutator \<Rightarrow> string \<Rightarrow> ulong \<Rightarrow> bool" where
  "in_window m sq i \<longleftrightarrow> i + ucast (k m) + ucast (delsize m) \<le> length_str sq"

partial_function (option) process_loop :: "('p, 'l) collaborators \<Rightarrow> string \<Rightarrow> counttable
    \<Rightarrow> ulong \<Rightarrow> ulong \<times> ('p, 'l) mutator \<Rightarrow> (error + ulong \<times> ('p, 'l) mutator) option" where
  "process_loop c sq ct i st =
     (if in_window (snd st) sq i then
        (case process_body c sq ct i st of
           Inl e \<Rightarrow> Some (Inl e)
         | Inr (Break st') \<Rightarrow> Some (Inr st')
         | Inr (Next st') \<Rightarrow> process_loop c sq ct (i + 1) st')
      else Some (Inr st))"

definition process :: "('p, 'l) collaborators \<Rightarrow> string \<Rightarrow> counttable \<Rightarrow> ('p, 'l) mutator
    \<Rightarrow> (error + ulong \<times> ('p, 'l) mutator) option" where
  "process c sq ct m = process_loop c sq ct (ucast (k m - 1)) (0, m)"

definition get_mut_count :: "('p, 'l) mutator \<Rightarrow> ulong" where
  "get_mut_count m = delcount m"

subsection \<open>Notions used to state the properties\<close>

text \<open>
  The characters of \<open>s\<close> at the positions \<open>pos, ..., pos + n - 1\<close>.
\<close>

definition substring :: "string \<Rightarrow> nat \<Rightarrow> nat \<Rightarrow> string" where
  "substring s pos n = map (\<lambda>j. s ! j) [pos ..< pos + n]"

text \<open>
  The junction as the specification words it: a left flank of length \<open>k - 1\<close> that ends
  at position \<open>i\<close> inclusive, followed by a right flank of length \<open>k\<close> that starts at
  position \<open>i + d\<close>.
\<close>

definition claimed_junction :: "nat \<Rightarrow> nat \<Rightarrow> string \<Rightarrow> nat \<Rightarrow> string" where
  "claimed_junction kk d sq i = substring sq (i + 1 - (kk - 1)) (kk - 1) @ substring sq (i + d) kk"

text \<open>
  The junction that the code builds at the deletion point \<open>i\<close>, over natural numbers,
  and the effect of one deletion event on the two histograms.
\<close>

definition junction :: "nat \<Rightarrow> nat \<Rightarrow> string \<Rightarrow> nat \<Rightarrow> string" where
  "junction kk d sq i = take (kk - 1) (drop (i + 1 - kk) sq) @ take kk (drop (i + d) sq)"

definition event_abund :: "counttable \<Rightarrow> string \<Rightarrow> histogram \<Rightarrow> histogram" where
  "event_abund ct dsq h =
     foldl (\<lambda>h kmer. increment h (unat (get_count ct (c_str kmer)))) h (get_kmers ct dsq)"

definition event_unique :: "counttable \<Rightarrow> string \<Rightarrow> nat" where
  "event_unique ct dsq =
     length (filter (\<lambda>kmer. get_count ct (c_str kmer) = 0) (get_kmers ct dsq))"

text \<open>
  The loop variable and the state at the top of the iteration that is reached after
  \<open>n\<close> passes through the body, when the loop gets that far.
\<close>

fun loop_state :: "('p, 'l) collaborators \<Rightarrow> string \<Rightarrow> counttable \<Rightarrow> nat \<Rightarrow> ulong
    \<Rightarrow> ulong \<times> ('p, 'l) mutator \<Rightarrow> (ulong \<times> ulong \<times> ('p, 'l) mutator) option" where
  "loop_state c sq ct 0 i st = Some (i, st)"
| "loop_state c sq ct (Suc n) i st =
     (if in_window (snd st) sq i then
        (case process_body c sq ct i st of
           Inr (Next st') \<Rightarrow> loop_state c sq ct n (i + 1) st'
         | _ \<Rightarrow> None)
      else None)"

text \<open>
  Whether the loop, started at \<open>i\<close> in the state \<open>st\<close>, comes to the \<^verbatim>\<open>break\<close> of line
  16 within \<open>n\<close> passes through the body. A call of \<open>process\<close> is ended by the limit
  when its loop comes to the \<^verbatim>\<open>break\<close>; the loop makes at most \<open>length sq + 1\<close>
  passes, as every pass moves \<open>i\<close> forward by one and a pass is made only while \<open>i\<close> is
  at most the length of the sequence.
\<close>

fun breaks_within :: "('p, 'l) collaborators \<Rightarrow> string \<Rightarrow> counttable \<Rightarrow> nat \<Rightarrow> ulong
    \<Rightarrow> ulong \<times> ('p, 'l) mutator \<Rightarrow> bool" where
  "breaks_within c sq ct 0 i st = False"
| "breaks_within c sq ct (Suc n) i st =
     (if in_window (snd st) sq i then
        (case process_body c sq ct i st of
           Inl e \<Rightarrow> False
         | Inr (Break st') \<Rightarrow> True
         | Inr (Next st') \<Rightarrow> breaks_within c sq ct n (i + 1) st')
      else False)"

definition ended_by_limit :: "('p, 'l) collaborators \<Rightarrow> string \<Rightarrow> counttable
    \<Rightarrow> ('p, 'l) mutator \<Rightarrow> bool" where
  "ended_by_limit c sq ct m \<longleftrightarrow>
     breaks_within c sq ct (Suc (length sq)) (ucast (k m - 1)) (0, m)"

text \<open>
  The same without a bound on the number of passes: some iteration that the loop
  reaches is inside the window and its pass through the body ends in \<^verbatim>\<open>break\<close>.
\<close>

definition breaks_from :: "('p, 'l) collaborators \<Rightarrow> string \<Rightarrow> counttable \<Rightarrow> ulong
    \<Rightarrow> ulong \<times> ('p, 'l) mutator \<Rightarrow> bool" where
  "breaks_from c sq ct i st \<longleftrightarrow>
     (\<exists>n j s. loop_state c sq ct n i st = Some (j, s) \<and> in_window (snd s) sq j
        \<and> process_body c sq ct j s = Inr (Break s))"

text \<open>
  The number of deletion points in the range \<open>[k - 1, length - k - d]\<close>, for \<open>k > 0\<close>.
\<close>

definition windows :: "('p, 'l) mutator \<Rightarrow> string \<Rightarrow> nat" where
  "windows m sq = length sq + 2 - 2 * unat (k m) - unat (delsize m)"

text \<open>
  The answers of the sampling policy to its next \<open>n\<close> calls, and how many of the next
  \<open>n\<close> deletion points it retains.
\<close>

fun answers :: "('p \<Rightarrow> bool \<times> 'p) \<Rightarrow> 'p \<Rightarrow> nat \<Rightarrow> bool list" where
  "answers f p 0 = []"
| "answers f p (Suc n) = fst (f p) # answers f (snd (f p)) n"

definition retained :: "('p, 'l) collaborators \<Rightarrow> 'p \<Rightarrow> nat \<Rightarrow> nat" where
  "retained c p n = length (filter (\<lambda>skip. \<not> skip) (answers (skip_nucl c) p n))"

text \<open>
  Two mutators steer the next \<open>n\<close> passes of the loop alike: they agree on \<open>k\<close>, the
  deletion size and the limit, the sampling policy gives its next \<open>n\<close> answers alike
  from the states that the two hold, and the deletion counter of the first is not ahead
  of that of the second (which matters only for a limit that can be exceeded). And two
  runs change their states alike: the totals, the deletion counters and every bucket of
  the two histograms grow by the same amounts from \<open>st\<close> to \<open>r\<close> as from \<open>st'\<close> to \<open>r'\<close>.
\<close>

definition same_control :: "('p, 'l) collaborators \<Rightarrow> nat \<Rightarrow> ('p, 'l) mutator
    \<Rightarrow> ('p, 'l) mutator \<Rightarrow> bool" where
  "same_control c n m m' \<longleftrightarrow>
     k m' = k m \<and> delsize m' = delsize m \<and> limit m' = limit m
     \<and> answers (skip_nucl c) (sampler m') n = answers (skip_nucl c) (sampler m) n
     \<and> (limit m = 0 \<or> limit m = - 1 \<or> delcount m \<le> delcount m')"

definition same_change :: "ulong \<times> ('p, 'l) mutator \<Rightarrow> ulong \<times> ('p, 'l) mutator
    \<Rightarrow> ulong \<times> ('p, 'l) mutator \<Rightarrow> ulong \<times> ('p, 'l) mutator \<Rightarrow> bool" where
  "same_change st r st' r' \<longleftrightarrow>
     fst r' + fst st = fst r + fst st'
     \<and> delcount (snd r') + delcount (snd st) = delcount (snd r) + delcount (snd st')
     \<and> (\<forall>b. abund_hist (snd r') b + abund_hist (snd st) b
            = abund_hist (snd r) b + abund_hist (snd st') b)
     \<and> (\<forall>b. unique_hist (snd r') b + unique_hist (snd st) b
            = unique_hist (snd r) b + unique_hist (snd st') b)"

text \<open>A further call of \<open>process\<close>, on the mutator that a call has returned.\<close>

definition again :: "('p, 'l) collaborators \<Rightarrow> string \<Rightarrow> counttable
    \<Rightarrow> (error + ulong \<times> ('p, 'l) mutator) option \<Rightarrow> (error + ulong \<times> ('p, 'l) mutator) option" where
  "again c sq ct r = (case r of Some (Inr (n, m)) \<Rightarrow> process c sq ct m | _ \<Rightarrow> r)"

text \<open>Texts joined by single spaces.\<close>

fun spaced :: "string list \<Rightarrow> string" where
  "spaced [] = []"
| "spaced (x # xs) = x @ concat (map (\<lambda>y. CHR '' '' # y) xs)"

text \<open>
  Collaborators and a counting table for the worked examples: a policy that never
  skips with a logger that never reports, the same policy with a logger that reports
  every event, a table in which no k-mer has been observed, and a table that has
  seen two of the 3-mers of the worked example.
\<close>

definition quiet :: "(unit, unit) collaborators" where
  "quiet = \<lparr>skip_nucl = (\<lambda>p. (False, p)), logger_increment = (\<lambda>l. (False, l)),
            show_mb = (\<lambda>l. []), show_hist = (\<lambda>h. [])\<rparr>"

definition chatty :: "(unit, unit) collaborators" where
  "chatty = \<lparr>skip_nucl = (\<lambda>p. (False, p)), logger_increment = (\<lambda>l. (True, l)),
             show_mb = (\<lambda>l. []), show_hist = (\<lambda>h. [])\<rparr>"

definition blank_table :: "nat \<Rightarrow> counttable" where
  "blank_table ksz = \<lparr>ksize = ksz, counts = (\<lambda>kmer. 0)\<rparr>"

definition example_table :: counttable where
  "example_table =
     \<lparr>ksize = 3, counts = (\<lambda>kmer. if kmer = ''AAC'' then 5 else if kmer = ''CCG'' then 2 else 0)\<rparr>"

text \<open>A policy that skips every other deletion point; its state is the next answer.\<close>

definition every_other :: "(bool, unit) collaborators" where
  "every_other = \<lparr>skip_nucl = (\<lambda>p. (p, \<not> p)), logger_increment = (\<lambda>l. (False, l)),
                  show_mb = (\<lambda>l. []), show_hist = (\<lambda>h. [])\<rparr>"

section \<open>Auxiliary facts\<close>

declare print_spaces.simps [simp del] print_abunds.simps [simp del] decimal.simps [simp del]

subsection \<open>Machine arithmetic\<close>

lemma unat_uint_less: "unat (w :: uint) < 4294967296"
  using unsigned_less [of w, where 'a = nat] by simp

lemma unat_ucast_uint: "unat (ucast (w :: uint) :: ulong) = unat w"
proof -
  have "unat (ucast w :: ulong) = take_bit 64 (unat w)"
    by (simp add: unsigned_ucast_eq)
  also have "\<dots> = unat w"
    using unat_uint_less [of w] by (simp add: take_bit_nat_eq_self)
  finally show ?thesis .
qed

lemma unat_length_str: "length s < 2 ^ 63 \<Longrightarrow> unat (length_str s) = length s"
  by (simp add: length_str_def unat_of_nat)

lemma unat_window_sum:
  assumes "unat (i :: ulong) \<le> 2 ^ 63"
  shows "unat (i + ucast kk + ucast dsz) = unat i + unat (kk :: uint) + unat (dsz :: uint)"
  using assms unat_uint_less [of kk] unat_uint_less [of dsz]
  by (simp add: unat_word_ariths unat_ucast_uint)

lemma in_window_nat:
  assumes "unat i \<le> 2 ^ 63" and "length sq < 2 ^ 63"
  shows "in_window m sq i \<longleftrightarrow> unat i + unat (k m) + unat (delsize m) \<le> length sq"
  using assms by (simp add: in_window_def word_le_nat_alt unat_window_sum unat_length_str)

lemma unat_Suc_window:
  assumes "unat i \<le> 2 ^ 63" and "length sq < 2 ^ 63" and "in_window m sq i"
  shows "unat (i + 1) = unat i + 1"
proof -
  have "unat i \<le> length sq"
    using assms by (simp add: in_window_nat)
  then have "unat i + 1 < 2 ^ 64"
    using assms(2) by simp
  then show ?thesis
    by (simp add: unat_word_ariths)
qed

lemma process_loop_induct:
  assumes len: "length sq < 2 ^ 63" and i: "unat i \<le> 2 ^ 63"
    and step: "\<And>i st. unat i \<le> 2 ^ 63 \<Longrightarrow>
       (\<And>st'. in_window (snd st) sq i \<Longrightarrow> Q (i + 1) st') \<Longrightarrow> Q i st"
  shows "Q i st"
proof -
  have "\<And>i st. n = length sq + 1 - unat i \<Longrightarrow> unat i \<le> 2 ^ 63 \<Longrightarrow> Q i st" for n
  proof (induction n rule: less_induct)
    case (less n)
    show ?case
    proof (rule step [OF less.prems(2)])
      fix st'
      assume w: "in_window (snd st) sq i"
      have le: "unat i \<le> length sq"
        using w less.prems(2) len by (simp add: in_window_nat)
      have suc: "unat (i + 1) = unat i + 1"
        using less.prems(2) len w by (rule unat_Suc_window)
      show "Q (i + 1) st'"
      proof (rule less.IH [OF _ refl])
        show "length sq + 1 - unat (i + 1) < n"
          using le suc less.prems(1) by simp
        show "unat (i + 1) \<le> 2 ^ 63"
          using le suc len by simp
      qed
    qed
  qed
  with i show ?thesis
    by blast
qed


lemma unat_min1:
  assumes "unat (kk :: uint) \<le> unat (i :: ulong) + 1" and "unat i < 2 ^ 63"
  shows "unat (i - ucast kk + 1) = unat i + 1 - unat kk"
proof -
  have suc: "unat (i + 1) = unat i + 1"
    using assms(2) by (simp add: unat_word_ariths)
  have "ucast kk \<le> i + 1"
    using assms(1) suc by (simp add: word_le_nat_alt unat_ucast_uint)
  then have "unat (i + 1 - ucast kk) = unat (i + 1) - unat (ucast kk :: ulong)"
    by (rule unat_sub)
  moreover have "i - ucast kk + 1 = i + 1 - ucast kk"
    by simp
  ultimately have "unat (i - ucast kk + 1) = unat (i + 1) - unat (ucast kk :: ulong)"
    by (simp only:)
  then show ?thesis
    by (simp only: suc unat_ucast_uint)
qed

lemma unat_length1:
  assumes "0 < (kk :: uint)"
  shows "unat (kk - 1) = unat kk - 1"
proof -
  have "kk \<noteq> 0"
    using assms by simp
  then show ?thesis
    by (rule unat_minus_one)
qed

lemma unat_min2:
  assumes "unat (i :: ulong) < 2 ^ 63"
  shows "unat (i + ucast (dsz :: uint)) = unat i + unat dsz"
  using assms unat_uint_less [of dsz] by (simp add: unat_word_ariths unat_ucast_uint)

lemma delseq_nat:
  assumes "0 < kk" and "unat kk \<le> unat i + 1"
    and "unat i + unat kk + unat dsz \<le> length sq" and "length sq < 2 ^ 63"
  shows "delseq kk dsz sq i =
    Inr (take (unat kk - 1) (drop (unat i + 1 - unat kk) sq)
         @ take (unat kk) (drop (unat i + unat dsz) sq))"
proof -
  have i: "unat i < 2 ^ 63"
    using assms(3,4) by simp
  have "0 < unat kk"
    using assms(1) by (simp add: unat_gt_0)
  then have "\<not> length sq < unat i + 1 - unat kk" and "\<not> length sq < unat i + unat dsz"
    using assms(3) by simp_all
  then show ?thesis
    by (simp add: delseq_def substr_def unat_min1 [OF assms(2) i] unat_length1 [OF assms(1)]
        unat_min2 [OF i] unat_ucast_uint del: One_nat_def)
qed

lemma unat_assert_rhs:
  assumes "0 < (kk :: uint)" and "unat kk \<le> 2 ^ 31"
  shows "unat (ucast (2 * kk - 1) :: ulong) = 2 * unat kk - 1"
proof (cases "unat kk = 2 ^ 31")
  case True
  then have "kk = 2147483648"
    by (simp add: word_unat_eq_iff)
  then show ?thesis
    by (simp add: unat_ucast_uint)
next
  case False
  then have lt: "unat (2 :: uint) * unat kk < 2 ^ 32"
    using assms(2) by simp
  then have two: "unat (2 * kk) = 2 * unat kk"
    using unat_mult_lem [of 2 kk] by simp
  have "0 < unat kk"
    using assms(1) by (simp add: unat_gt_0)
  then have "2 * kk \<noteq> 0"
    using two by (metis mult_is_0 not_less_zero unat_0 zero_neq_numeral)
  then have "unat (2 * kk - 1) = unat (2 * kk) - 1"
    by (rule unat_minus_one)
  then show ?thesis
    by (simp add: unat_ucast_uint two)
qed

lemma assertion_holds:
  assumes "0 < (kk :: uint)" and "unat kk \<le> 2 ^ 31" and "length dsq = 2 * unat kk - 1"
  shows "length_str dsq = ucast (2 * kk - 1)"
proof -
  have "length dsq < 2 ^ 63"
    using assms(2,3) by simp
  then have "unat (length_str dsq) = 2 * unat kk - 1"
    using assms(3) by (simp add: unat_length_str)
  then show ?thesis
    using unat_assert_rhs [OF assms(1,2)] by (simp add: word_unat_eq_iff)
qed

subsection \<open>The deletion event\<close>

lemma tally_eq:
  "tally ct kmers (ah, av, uc) =
     (foldl (\<lambda>h kmer. increment h (unat (get_count ct (c_str kmer)))) ah kmers,
      av @ map (\<lambda>kmer. get_count ct (c_str kmer)) kmers,
      uc + int (length (filter (\<lambda>kmer. get_count ct (c_str kmer) = 0) kmers)))"
  by (induction kmers arbitrary: ah av uc) (simp_all add: Let_def)

lemma length_get_kmers: "length (get_kmers ct s) = length s + 1 - ksize ct"
  by (simp add: get_kmers_def)

lemma Deletion_eq:
  assumes "length (get_kmers ct sq) = unat (k m)"
  shows "Deletion sq m ct =
    Inr (\<lparr>sequence = sq, abunds = map (\<lambda>kmer. get_count ct (c_str kmer)) (get_kmers ct sq)\<rparr>,
         m\<lparr>abund_hist := foldl (\<lambda>h kmer. increment h (unat (get_count ct (c_str kmer))))
                            (abund_hist m) (get_kmers ct sq),
           unique_hist := increment (unique_hist m)
             (length (filter (\<lambda>kmer. get_count ct (c_str kmer) = 0) (get_kmers ct sq)))\<rparr>)"
proof -
  have "(of_nat (length (get_kmers ct sq)) :: ulong) = ucast (k m)"
    using assms by (simp add: word_unat_eq_iff unat_ucast_uint unat_of_nat)
  then show ?thesis
    by (simp add: Deletion_def tally_eq Let_def)
qed

lemma foldl_increment:
  "foldl (\<lambda>h x. increment h (f x)) h xs b = h b + length (filter (\<lambda>x. f x = b) xs)"
  by (induction xs arbitrary: h) (simp_all add: increment_def)


lemma unat_Suc_less: "(i :: uint) < kk \<Longrightarrow> unat (i + 1) = unat i + 1"
  by unat_arith

lemma print_spaces_eq: "print_spaces i kk out = out @ replicate (unat kk - unat i) CHR '' ''"
proof (induction i kk out rule: print_spaces.induct)
  case (1 i kk out)
  show ?case
  proof (cases "i < kk")
    case True
    then have "unat kk - unat i = Suc (unat kk - unat (i + 1))"
      by unat_arith
    then show ?thesis
      using True "1.IH" by (subst print_spaces.simps) (simp add: replicate_app_Cons_same)
  next
    case False
    then have "unat kk - unat i = 0"
      by (simp add: word_less_nat_alt)
    then show ?thesis
      using False by (subst print_spaces.simps) simp
  qed
qed

lemma print_abunds_tail:
  assumes "unat kk \<le> length av" and "0 < i"
  shows "print_abunds i kk av out =
    Inr (out @ concat (map (\<lambda>a. CHR '' '' # decimal (unat a))
                         (take (unat kk - unat i) (drop (unat i) av))))"
  using assms
proof (induction i kk av out rule: print_abunds.induct)
  case (1 i kk av out)
  show ?case
  proof (cases "i < kk")
    case True
    then have suc: "unat (i + 1) = unat i + 1" and lt: "unat i < unat kk"
      by (simp_all add: unat_Suc_less word_less_nat_alt)
    have pos: "0 < i + 1"
      using suc by (metis Suc_eq_plus1 unat_0 word_gt_0 nat.distinct(1))
    have inb: "\<not> length av \<le> unat i"
      using lt "1.prems"(1) by simp
    have split: "take (unat kk - unat i) (drop (unat i) av)
        = av ! unat i # take (unat kk - unat (i + 1)) (drop (unat (i + 1)) av)"
    proof -
      have "drop (unat i) av = av ! unat i # drop (Suc (unat i)) av"
        using inb by (simp add: Cons_nth_drop_Suc)
      moreover have "unat kk - unat i = Suc (unat kk - unat (i + 1))"
        using lt suc by simp
      ultimately show ?thesis
        by (simp add: suc)
    qed
    have "print_abunds i kk av out
        = print_abunds (i + 1) kk av ((out @ [CHR '' '']) @ decimal (unat (av ! unat i)))"
      using True inb "1.prems"(2) by (subst print_abunds.simps) simp
    also have "\<dots> = Inr (((out @ [CHR '' '']) @ decimal (unat (av ! unat i)))
        @ concat (map (\<lambda>a. CHR '' '' # decimal (unat a))
                    (take (unat kk - unat (i + 1)) (drop (unat (i + 1)) av))))"
      using "1.IH" [OF True inb "1.prems"(1) pos] "1.prems"(2) by simp
    finally show ?thesis
      by (simp add: split)
  next
    case False
    then have "unat kk - unat i = 0"
      by (simp add: word_less_nat_alt)
    then show ?thesis
      using False by (subst print_abunds.simps) simp
  qed
qed

lemma print_abunds_eq:
  assumes "unat kk \<le> length av"
  shows "print_abunds 0 kk av out =
    Inr (out @ spaced (map (\<lambda>a. decimal (unat a)) (take (unat kk) av)))"
proof (cases "0 < kk")
  case True
  then have lt: "0 < unat kk"
    by (simp add: unat_gt_0)
  then obtain a as where av: "av = a # as"
    using assms by (cases av) auto
  have "print_abunds 0 kk av out = print_abunds (0 + 1) kk av (out @ decimal (unat a))"
    using True av by (subst print_abunds.simps) simp
  also have "\<dots> = Inr ((out @ decimal (unat a))
      @ concat (map (\<lambda>a. CHR '' '' # decimal (unat a))
                  (take (unat kk - unat (1 :: uint)) (drop (unat (1 :: uint)) av))))"
    using assms by (simp add: print_abunds_tail)
  also have "\<dots> = Inr (out @ spaced (map (\<lambda>a. decimal (unat a)) (take (unat kk) av)))"
    using lt av by (cases "unat kk") (simp_all add: comp_def)
  finally show ?thesis .
next
  case False
  then have "kk = 0"
    by (simp add: word_gt_0)
  then show ?thesis
    by (subst print_abunds.simps) simp
qed

lemma print_eq:
  assumes "unat (k m) \<le> length (abunds del)"
  shows "print del m out =
    Inr (out @ [CHR ''>''] @ sequence del @ [newline]
         @ replicate (unat (k m)) CHR '' '' @ [CHR ''|''] @ [newline]
         @ spaced (map (\<lambda>a. decimal (unat a)) (take (unat (k m)) (abunds del))) @ [newline])"
  using assms by (simp add: print_def print_spaces_eq print_abunds_eq)

lemma report_eq:
  assumes "unat (k m) \<le> length (abunds del)"
  shows "\<exists>out. report c del m = Inr (m\<lparr>stream := out\<rparr>)"
  using assms by (simp add: report_def print_eq) (rule exI, rule refl)

lemma process_body_Break:
  "process_body c sq ct i (n, m) = Inr (Break st') \<longleftrightarrow>
     0 < limit m \<and> limit m < delcount m \<and> st' = (n, m)"
  by (auto simp: process_body_def Let_def split: prod.splits sum.splits if_splits)

lemma report_frame:
  assumes "report c del m = Inr m'"
  shows "k m' = k m \<and> limit m' = limit m \<and> delcount m' = delcount m \<and> delsize m' = delsize m
    \<and> abund_hist m' = abund_hist m \<and> unique_hist m' = unique_hist m
    \<and> sampler m' = sampler m \<and> logger m' = logger m"
  using assms by (auto simp: report_def Let_def split: sum.splits)

lemma Deletion_frame:
  assumes "Deletion dsq m ct = Inr (del, m')"
  shows "k m' = k m \<and> limit m' = limit m \<and> delcount m' = delcount m \<and> delsize m' = delsize m
    \<and> sampler m' = sampler m \<and> logger m' = logger m \<and> stream m' = stream m"
  using assms by (auto simp: Deletion_def Let_def split: prod.splits if_splits)

lemma process_body_Next_frame:
  assumes "process_body c sq ct i (n, m) = Inr (Next (n', m'))"
  shows "k m' = k m \<and> delsize m' = delsize m \<and> limit m' = limit m
    \<and> \<not> (0 < limit m \<and> limit m < delcount m)
    \<and> sampler m' = snd (skip_nucl c (sampler m))
    \<and> (if fst (skip_nucl c (sampler m))
        then n' = n \<and> m' = m\<lparr>sampler := snd (skip_nucl c (sampler m))\<rparr>
        else n' = n + ucast (k m) \<and> delcount m' = delcount m + 1)"
  using assms
  by (auto simp: process_body_def Let_def split: prod.splits sum.splits if_splits
      dest!: report_frame Deletion_frame)

subsection \<open>The loop\<close>

lemma length_junction:
  assumes "0 < kk" and "kk \<le> i + 1" and "i + kk + d \<le> length sq"
  shows "length (junction kk d sq i) = 2 * kk - 1"
proof -
  have "min (kk - 1) (length sq - (i + 1 - kk)) = kk - 1"
    and "min kk (length sq - (i + d)) = kk"
    using assms by simp_all
  then show ?thesis
    using assms(1) by (simp add: junction_def del: One_nat_def)
qed

lemma process_body_event:
  assumes nobreak: "\<not> (0 < limit m \<and> limit m < delcount m)"
    and skip: "skip_nucl c (sampler m) = (False, p)"
    and kpos: "0 < k m" and kmax: "unat (k m) \<le> 2 ^ 31"
    and ct: "ksize ct = unat (k m)"
    and lo: "unat (k m) \<le> unat i + 1"
    and hi: "unat i + unat (k m) + unat (delsize m) \<le> length sq"
    and len: "length sq < 2 ^ 63"
  shows "\<exists>out. process_body c sq ct i (n, m) =
    Inr (Next (n + ucast (k m),
      m\<lparr>delcount := delcount m + 1,
        abund_hist := event_abund ct (junction (unat (k m)) (unat (delsize m)) sq (unat i)) (abund_hist m),
        unique_hist := increment (unique_hist m)
          (event_unique ct (junction (unat (k m)) (unat (delsize m)) sq (unat i))),
        sampler := p,
        logger := snd (logger_increment c (logger m)),
        stream := out\<rparr>))"
proof -
  let ?K = "unat (k m)" and ?D = "unat (delsize m)"
  let ?dsq = "junction ?K ?D sq (unat i)"
  let ?m1 = "m\<lparr>sampler := p, delcount := delcount m + 1\<rparr>"
  have K: "0 < ?K"
    using kpos by (simp add: unat_gt_0)
  have dsq: "delseq (k m) (delsize m) sq i = Inr ?dsq"
    using delseq_nat [OF kpos lo hi len] by (simp add: junction_def)
  have ldsq: "length ?dsq = 2 * ?K - 1"
    using K lo hi by (simp add: length_junction)
  have ok: "length_str ?dsq = ucast (2 * k m - 1)"
    using kpos kmax ldsq by (rule assertion_holds)
  have nk: "length (get_kmers ct ?dsq) = unat (k ?m1)"
    using K ldsq ct by (simp add: length_get_kmers)
  note D = Deletion_eq [OF nk]
  let ?del = "\<lparr>sequence = ?dsq, abunds = map (\<lambda>kmer. get_count ct (c_str kmer)) (get_kmers ct ?dsq)\<rparr>"
  let ?m2 = "?m1\<lparr>abund_hist := event_abund ct ?dsq (abund_hist m),
                  unique_hist := increment (unique_hist m) (event_unique ct ?dsq),
                  logger := snd (logger_increment c (logger m))\<rparr>"
  have "unat (k ?m2) \<le> length (abunds ?del)"
    using nk by simp
  from report_eq [OF this, of c] obtain out where rep: "report c ?del ?m2 = Inr (?m2\<lparr>stream := out\<rparr>)"
    by blast
  show ?thesis
  proof (cases "fst (logger_increment c (logger m))")
    case True
    then show ?thesis
      using nobreak skip dsq ok D rep
      by (intro exI [of _ out])
        (simp add: process_body_def Let_def event_abund_def event_unique_def split_beta)
  next
    case False
    then show ?thesis
      using nobreak skip dsq ok D
      by (intro exI [of _ "stream m"])
        (simp add: process_body_def Let_def event_abund_def event_unique_def split_beta)
  qed
qed

lemma unat_start_le: "unat (ucast (kk - 1 :: uint) :: ulong) \<le> 2 ^ 63"
  using unat_uint_less [of "kk - 1"] by (simp add: unat_ucast_uint)

lemma unat_start: "0 < kk \<Longrightarrow> unat (ucast (kk - 1 :: uint) :: ulong) = unat kk - 1"
  by (simp add: unat_ucast_uint unat_length1)

lemma process_loop_returns:
  fixes c :: "('p, 'l) collaborators"
  assumes "length sq < 2 ^ 63" and "unat i \<le> 2 ^ 63"
  shows "\<exists>r. process_loop c sq ct i st = Some r"
  using assms
proof (rule process_loop_induct)
  fix i and st :: "ulong \<times> ('p, 'l) mutator"
  assume IH: "\<And>st'. in_window (snd st) sq i \<Longrightarrow> \<exists>r. process_loop c sq ct (i + 1) st' = Some r"
  show "\<exists>r. process_loop c sq ct i st = Some r"
  proof (cases "in_window (snd st) sq i")
    case True
    then show ?thesis
      using IH [OF True]
      by (subst process_loop.simps) (simp split: sum.split flow.split)
  next
    case False
    then show ?thesis
      by (subst process_loop.simps) simp
  qed
qed

lemma process_loop_invariant:
  fixes c :: "('p, 'l) collaborators"
  assumes len: "length sq < 2 ^ 63" and i: "unat i \<le> 2 ^ 63"
    and init: "P i st"
    and step: "\<And>i st st'. P i st \<Longrightarrow> unat i \<le> 2 ^ 63 \<Longrightarrow> in_window (snd st) sq i \<Longrightarrow>
        process_body c sq ct i st = Inr (Next st') \<Longrightarrow> P (i + 1) st'"
  shows "(\<forall>st'. process_loop c sq ct i st = Some (Inr st') \<longrightarrow>
           (\<exists>j. P j st' \<and> unat j \<le> 2 ^ 63 \<and>
                (in_window (snd st') sq j \<longrightarrow> process_body c sq ct j st' = Inr (Break st'))))
       \<and> (\<forall>e. process_loop c sq ct i st = Some (Inl e) \<longrightarrow>
           (\<exists>j s. P j s \<and> unat j \<le> 2 ^ 63 \<and> in_window (snd s) sq j
                \<and> process_body c sq ct j s = Inl e))"
    (is "?R i st")
proof -
  have "P i st \<longrightarrow> ?R i st"
    using len i
  proof (rule process_loop_induct)
    fix i and st :: "ulong \<times> ('p, 'l) mutator"
    assume i: "unat i \<le> 2 ^ 63"
      and IH: "\<And>st'. in_window (snd st) sq i \<Longrightarrow> P (i + 1) st' \<longrightarrow> ?R (i + 1) st'"
    show "P i st \<longrightarrow> ?R i st"
    proof
      assume P: "P i st"
      show "?R i st"
      proof (cases "in_window (snd st) sq i")
        case False
        then have "process_loop c sq ct i st = Some (Inr st)"
          by (subst process_loop.simps) simp
        moreover have "\<exists>j. P j st \<and> unat j \<le> 2 ^ 63 \<and>
            (in_window (snd st) sq j \<longrightarrow> process_body c sq ct j st = Inr (Break st))"
          using P i False by blast
        ultimately show ?thesis
          by simp
      next
        case True
        then have unf: "process_loop c sq ct i st =
            (case process_body c sq ct i st of
               Inl e \<Rightarrow> Some (Inl e)
             | Inr (Break st') \<Rightarrow> Some (Inr st')
             | Inr (Next st') \<Rightarrow> process_loop c sq ct (i + 1) st')"
          by (subst process_loop.simps) simp
        show ?thesis
        proof (cases "process_body c sq ct i st")
          case (Inl e)
          then have "process_loop c sq ct i st = Some (Inl e)"
            using unf by simp
          moreover have "\<exists>j s. P j s \<and> unat j \<le> 2 ^ 63 \<and> in_window (snd s) sq j
              \<and> process_body c sq ct j s = Inl e"
            using P i True Inl by blast
          ultimately show ?thesis
            by simp
        next
          case (Inr fl)
          show ?thesis
          proof (cases fl)
            case (Break st')
            then have "st' = st"
              using Inr by (cases st) (simp add: process_body_Break)
            then have "process_loop c sq ct i st = Some (Inr st)"
              using unf Inr Break by simp
            moreover have "\<exists>j. P j st \<and> unat j \<le> 2 ^ 63 \<and>
                (in_window (snd st) sq j \<longrightarrow> process_body c sq ct j st = Inr (Break st))"
              using P i Inr Break \<open>st' = st\<close> by blast
            ultimately show ?thesis
              by simp
          next
            case (Next st')
            then have "P (i + 1) st'"
              using step [OF P i True] Inr by simp
            then have "?R (i + 1) st'"
              using IH [OF True] by blast
            then show ?thesis
              using unf Inr Next by simp
          qed
        qed
      qed
    qed
  qed
  then show ?thesis
    using init by blast
qed

lemma Deletion_error: "Deletion dsq m ct = Inl e \<Longrightarrow> e = Kmer_count_assertion"
  by (auto simp: Deletion_def Let_def split: prod.splits if_splits)

lemma print_error: "print del m out = Inl e \<Longrightarrow> e = Index_out_of_bounds"
proof -
  have "print_abunds i kk av s = Inl e \<Longrightarrow> e = Index_out_of_bounds" for i kk av s
  proof (induction i kk av s rule: print_abunds.induct)
    case (1 i kk av out)
    then show ?case
      by (subst (asm) (2) print_abunds.simps) (auto split: if_splits)
  qed
  then show "print del m out = Inl e \<Longrightarrow> e = Index_out_of_bounds"
    by (auto simp: print_def Let_def split: sum.splits)
qed

lemma report_error: "report c del m = Inl e \<Longrightarrow> e = Index_out_of_bounds"
  by (auto simp: report_def Let_def split: sum.splits dest: print_error)

lemma length_delseq_less:
  assumes "delseq kk dsz sq i = Inr dsq"
  shows "length dsq < 2 ^ 33"
proof -
  obtain l r where "dsq = l @ r" and "length l \<le> unat (ucast (kk - 1) :: ulong)"
    and "length r \<le> unat (ucast kk :: ulong)"
    using assms by (auto simp: delseq_def substr_def Let_def split: sum.splits if_splits)
  then show ?thesis
    using unat_uint_less [of "kk - 1"] unat_uint_less [of kk] by (simp add: unat_ucast_uint)
qed

lemma Deletion_Inr:
  assumes "Deletion dsq m ct = Inr (del, m')" and "length dsq < 2 ^ 63"
  shows "length (get_kmers ct dsq) = unat (k m)"
proof -
  have "(of_nat (length (get_kmers ct dsq)) :: ulong) = ucast (k m)"
    using assms(1) by (auto simp: Deletion_def Let_def split: if_splits)
  then have "unat (of_nat (length (get_kmers ct dsq)) :: ulong) = unat (k m)"
    by (simp add: unat_ucast_uint)
  moreover have "length (get_kmers ct dsq) < 2 ^ 64"
    using assms(2) by (simp add: length_get_kmers)
  ultimately show ?thesis
    by (simp add: unat_of_nat)
qed

lemma process_body_event_gen:
  assumes nobreak: "\<not> (0 < limit m \<and> limit m < delcount m)"
    and skip: "\<not> fst (skip_nucl c (sampler m))"
    and dsq: "delseq (k m) (delsize m) sq i = Inr dsq"
    and ok: "length_str dsq = ucast (2 * k m - 1)"
    and nk: "length (get_kmers ct dsq) = unat (k m)"
  shows "\<exists>out. process_body c sq ct i (n, m) =
    Inr (Next (n + ucast (k m),
      m\<lparr>delcount := delcount m + 1,
        abund_hist := event_abund ct dsq (abund_hist m),
        unique_hist := increment (unique_hist m) (event_unique ct dsq),
        sampler := snd (skip_nucl c (sampler m)),
        logger := snd (logger_increment c (logger m)),
        stream := out\<rparr>))"
proof -
  let ?m1 = "m\<lparr>sampler := snd (skip_nucl c (sampler m)), delcount := delcount m + 1\<rparr>"
  have nk1: "length (get_kmers ct dsq) = unat (k ?m1)"
    using nk by simp
  note D = Deletion_eq [OF nk1]
  let ?del = "\<lparr>sequence = dsq, abunds = map (\<lambda>kmer. get_count ct (c_str kmer)) (get_kmers ct dsq)\<rparr>"
  let ?m2 = "?m1\<lparr>abund_hist := event_abund ct dsq (abund_hist m),
                  unique_hist := increment (unique_hist m) (event_unique ct dsq),
                  logger := snd (logger_increment c (logger m))\<rparr>"
  have "unat (k ?m2) \<le> length (abunds ?del)"
    using nk by simp
  from report_eq [OF this, of c] obtain out where rep: "report c ?del ?m2 = Inr (?m2\<lparr>stream := out\<rparr>)"
    by blast
  show ?thesis
  proof (cases "fst (logger_increment c (logger m))")
    case True
    then show ?thesis
      using nobreak skip dsq ok D rep
      by (intro exI [of _ out])
        (simp add: process_body_def Let_def event_abund_def event_unique_def split_beta)
  next
    case False
    then show ?thesis
      using nobreak skip dsq ok D
      by (intro exI [of _ "stream m"])
        (simp add: process_body_def Let_def event_abund_def event_unique_def split_beta)
  qed
qed

lemma process_body_skip:
  assumes "\<not> (0 < limit m \<and> limit m < delcount m)" and "fst (skip_nucl c (sampler m))"
  shows "process_body c sq ct i (n, m) = Inr (Next (n, m\<lparr>sampler := snd (skip_nucl c (sampler m))\<rparr>))"
  using assms by (simp add: process_body_def Let_def split_beta)

lemma process_body_Next_event:
  assumes "process_body c sq ct i (n, m) = Inr (Next st')" and "\<not> fst (skip_nucl c (sampler m))"
  shows "\<exists>dsq. delseq (k m) (delsize m) sq i = Inr dsq \<and> length_str dsq = ucast (2 * k m - 1)
    \<and> length (get_kmers ct dsq) = unat (k m)"
proof -
  obtain dsq where dsq: "delseq (k m) (delsize m) sq i = Inr dsq"
    and ok: "length_str dsq = ucast (2 * k m - 1)"
    and D: "\<exists>del m2. Deletion dsq (m\<lparr>sampler := snd (skip_nucl c (sampler m)), delcount := delcount m + 1\<rparr>) ct = Inr (del, m2)"
    using assms
    by (auto simp: process_body_def Let_def split_beta split: sum.splits if_splits)
  from D obtain del m2 where "Deletion dsq (m\<lparr>sampler := snd (skip_nucl c (sampler m)), delcount := delcount m + 1\<rparr>) ct = Inr (del, m2)"
    by blast
  moreover have "length dsq < 2 ^ 63"
    using length_delseq_less [OF dsq] by simp
  ultimately have "length (get_kmers ct dsq) = unat (k m)"
    using Deletion_Inr by fastforce
  then show ?thesis
    using dsq ok by blast
qed

lemma process_body_no_junction_assertion:
  assumes kpos: "0 < k m" and kmax: "unat (k m) \<le> 2 ^ 31"
    and lo: "unat (k m) \<le> unat i + 1"
    and hi: "unat i + unat (k m) + unat (delsize m) \<le> length sq"
    and len: "length sq < 2 ^ 63"
  shows "process_body c sq ct i (n, m) \<noteq> Inl Junction_length_assertion"
proof -
  let ?dsq = "junction (unat (k m)) (unat (delsize m)) sq (unat i)"
  have K: "0 < unat (k m)"
    using kpos by (simp add: unat_gt_0)
  have dsq: "delseq (k m) (delsize m) sq i = Inr ?dsq"
    using delseq_nat [OF kpos lo hi len] by (simp add: junction_def)
  have "length ?dsq = 2 * unat (k m) - 1"
    using K lo hi by (simp add: length_junction)
  with kpos kmax have ok: "length_str ?dsq = ucast (2 * k m - 1)"
    by (rule assertion_holds)
  show ?thesis
    using dsq ok
    by (auto simp: process_body_def Let_def split_beta split: sum.splits if_splits
        dest: Deletion_error report_error)
qed

lemma process_loop_Inl:
  fixes c :: "('p, 'l) collaborators"
  assumes "length sq < 2 ^ 63" and "unat i \<le> 2 ^ 63" and "P i st"
    and "process_loop c sq ct i st = Some (Inl e)"
    and "\<And>i st st'. P i st \<Longrightarrow> unat i \<le> 2 ^ 63 \<Longrightarrow> in_window (snd st) sq i \<Longrightarrow>
        process_body c sq ct i st = Inr (Next st') \<Longrightarrow> P (i + 1) st'"
  shows "\<exists>j s. P j s \<and> unat j \<le> 2 ^ 63 \<and> in_window (snd s) sq j
    \<and> process_body c sq ct j s = Inl e"
proof -
  note process_loop_invariant [where P = P and c = c and ct = ct, OF assms(1,2,3)]
  then show ?thesis
    using assms(4,5) by blast
qed

lemma process_loop_Inr:
  fixes c :: "('p, 'l) collaborators"
  assumes "length sq < 2 ^ 63" and "unat i \<le> 2 ^ 63" and "P i st"
    and "process_loop c sq ct i st = Some (Inr st')"
    and "\<And>i st st'. P i st \<Longrightarrow> unat i \<le> 2 ^ 63 \<Longrightarrow> in_window (snd st) sq i \<Longrightarrow>
        process_body c sq ct i st = Inr (Next st') \<Longrightarrow> P (i + 1) st'"
  shows "\<exists>j. P j st' \<and> unat j \<le> 2 ^ 63
    \<and> (in_window (snd st') sq j \<longrightarrow> process_body c sq ct j st' = Inr (Break st'))"
proof -
  note process_loop_invariant [where P = P and c = c and ct = ct, OF assms(1,2,3)]
  then show ?thesis
    using assms(4,5) by blast
qed

lemma unat_Suc_le: "unat (x + 1 :: ulong) \<le> unat x + 1"
  by (simp add: unat_word_ariths)

lemma process_body_delcount_bound:
  assumes "process_body c sq ct i (n, m) = Inr (Next (n', m'))"
    and "0 < limit m"
  shows "limit m' = limit m \<and> unat (delcount m') \<le> unat (limit m) + 1"
proof -
  note f = process_body_Next_frame [OF assms(1)]
  then have "\<not> limit m < delcount m"
    using assms(2) by simp
  then have le: "unat (delcount m) \<le> unat (limit m)"
    by (simp add: word_less_nat_alt)
  show ?thesis
  proof (cases "fst (skip_nucl c (sampler m))")
    case True
    then have "m' = m\<lparr>sampler := snd (skip_nucl c (sampler m))\<rparr>"
      using f by simp
    then show ?thesis
      using le by simp
  next
    case False
    then have "delcount m' = delcount m + 1"
      using f by simp
    then show ?thesis
      using f le unat_Suc_le [of "delcount m"] by simp
  qed
qed

lemma loop_state_delcount_bound:
  assumes "loop_state c sq ct n i (kc, m) = Some (j, kc', m')"
    and "0 < limit m" and "unat (delcount m) \<le> unat (limit m) + 1"
  shows "limit m' = limit m \<and> unat (delcount m') \<le> unat (limit m) + 1"
  using assms
proof (induction n arbitrary: i kc m)
  case 0
  then show ?case by simp
next
  case (Suc n)
  from Suc.prems(1) obtain kc1 m1 where b: "process_body c sq ct i (kc, m) = Inr (Next (kc1, m1))"
    and l: "loop_state c sq ct n (i + 1) (kc1, m1) = Some (j, kc', m')"
    by (auto split: if_splits sum.splits flow.splits)
  from process_body_delcount_bound [OF b Suc.prems(2)]
  have "limit m1 = limit m" and "unat (delcount m1) \<le> unat (limit m1) + 1"
    by simp_all
  with Suc.IH [OF l] Suc.prems(2) show ?case
    by simp
qed

lemma process_loop_over_limit:
  assumes "0 < limit m" and "limit m < delcount m"
  shows "process_loop c sq ct i (n, m) = Some (Inr (n, m))"
  using assms by (subst process_loop.simps) (simp add: process_body_def)

lemma process_loop_limit:
  fixes c :: "('p, 'l) collaborators"
  assumes kpos: "0 < kk" and kmax: "unat kk \<le> 2 ^ 31" and ct: "ksize ct = unat kk"
    and len: "length sq < 2 ^ 63" and noskip: "\<forall>p. \<not> fst (skip_nucl c p)"
    and lim: "0 < lim" and limmax: "unat lim < 2 ^ 63"
    and i: "unat i \<le> 2 ^ 63"
  shows "k m = kk \<and> delsize m = dsz \<and> limit m = lim
      \<and> unat (delcount m) \<le> unat lim + 1 \<and> unat kk \<le> unat i + 1
      \<and> unat i + unat kk + unat dsz + (unat lim + 1 - unat (delcount m)) \<le> length sq
    \<longrightarrow> (\<exists>m'. process_loop c sq ct i (kc, m)
               = Some (Inr (kc + of_nat (unat lim + 1 - unat (delcount m)) * ucast kk, m'))
            \<and> delcount m' = lim + 1 \<and> k m' = kk \<and> delsize m' = dsz \<and> limit m' = lim)"
    (is "?C i m \<longrightarrow> ?R i kc m")
proof -
  let ?Q = "\<lambda>i (st :: ulong \<times> ('p, 'l) mutator). ?C i (snd st) \<longrightarrow> ?R i (fst st) (snd st)"
  have "?Q i (kc, m)"
    using len i
  proof (rule process_loop_induct)
    fix i and st :: "ulong \<times> ('p, 'l) mutator"
    assume i: "unat i \<le> 2 ^ 63"
      and IH: "\<And>st'. in_window (snd st) sq i \<Longrightarrow> ?Q (i + 1) st'"
    obtain kc m where st: "st = (kc, m)"
      by (cases st)
    show "?Q i st"
    proof
      assume C: "?C i (snd st)"
      then have f: "k m = kk" "delsize m = dsz" "limit m = lim"
        and dc: "unat (delcount m) \<le> unat lim + 1" and lo: "unat kk \<le> unat i + 1"
        using st by simp_all
      have hi: "unat i + unat kk + unat dsz + (unat lim + 1 - unat (delcount m)) \<le> length sq"
        using C st by (simp only: snd_conv)
      have w: "in_window m sq i"
        using hi f i len by (simp add: in_window_nat)
      show "?R i (fst st) (snd st)"
      proof (cases "lim < delcount m")
        case True
        then have "unat (delcount m) = unat lim + 1"
          using dc by (simp add: word_less_nat_alt)
        moreover have "unat (lim + 1) = unat lim + 1"
          using limmax by (simp add: unat_word_ariths)
        ultimately have "delcount m = lim + 1"
          by (simp add: word_unat_eq_iff)
        moreover have "process_loop c sq ct i (kc, m) = Some (Inr (kc, m))"
          using True lim f by (simp add: process_loop_over_limit)
        ultimately show ?thesis
          using st f \<open>unat (delcount m) = unat lim + 1\<close> by simp
      next
        case False
        then have le: "unat (delcount m) \<le> unat lim"
          by (simp add: word_less_nat_alt)
        then have suc: "unat (delcount m + 1) = unat (delcount m) + 1"
          using limmax by (simp add: unat_word_ariths)
        have nobreak: "\<not> (0 < limit m \<and> limit m < delcount m)"
          using False f by simp
        have skip: "skip_nucl c (sampler m) = (False, snd (skip_nucl c (sampler m)))"
          using noskip by (simp add: prod_eq_iff)
        have hi': "unat i + unat (k m) + unat (delsize m) \<le> length sq"
          using hi f by simp
        from process_body_event [OF nobreak skip _ _ _ _ hi' len, of ct kc] kpos kmax ct lo f
        obtain m1 where b: "process_body c sq ct i (kc, m) = Inr (Next (kc + ucast kk, m1))"
          and m1: "k m1 = kk" "delsize m1 = dsz" "limit m1 = lim" "delcount m1 = delcount m + 1"
          by auto
        have unf: "process_loop c sq ct i (kc, m) = process_loop c sq ct (i + 1) (kc + ucast kk, m1)"
          using w b by (subst process_loop.simps) simp
        have si: "unat (i + 1) = unat i + 1"
          using i len w by (rule unat_Suc_window)
        let ?n1 = "unat lim + 1 - unat (delcount m1)"
        have n: "unat lim + 1 - unat (delcount m) = Suc ?n1"
          using m1 suc le by simp
        have "unat (delcount m1) \<le> unat lim + 1" and "unat kk \<le> unat (i + 1) + 1"
          using m1 suc si le lo by simp_all
        moreover have "unat (i + 1) + unat kk + unat dsz + ?n1 \<le> length sq"
          using hi n si by simp
        ultimately have C1: "?C (i + 1) m1"
          using m1 by (intro conjI)
        have "in_window (snd st) sq i"
          using w st by simp
        then have "?Q (i + 1) (kc + ucast kk, m1)"
          by (rule IH)
        then have "?C (i + 1) m1 \<longrightarrow> ?R (i + 1) (kc + ucast kk) m1"
          by (simp only: fst_conv snd_conv)
        with C1 have "?R (i + 1) (kc + ucast kk) m1"
          by (rule rev_mp)
        then obtain m' where run: "process_loop c sq ct (i + 1) (kc + ucast kk, m1)
              = Some (Inr (kc + ucast kk + of_nat ?n1 * ucast kk, m'))"
          and m': "delcount m' = lim + 1" "k m' = kk" "delsize m' = dsz" "limit m' = lim"
          by blast
        have "kc + ucast kk + of_nat ?n1 * ucast kk = kc + of_nat (Suc ?n1) * (ucast kk :: ulong)"
          by (simp add: algebra_simps)
        then have "process_loop c sq ct i (kc, m)
            = Some (Inr (kc + of_nat (unat lim + 1 - unat (delcount m)) * ucast kk, m'))"
          using unf run n by (simp only:)
        then show ?thesis
          using m' st by (simp only: fst_conv snd_conv) blast
      qed
    qed
  qed
  then show ?thesis
    by simp
qed

lemma retained_0: "retained c p 0 = 0"
  by (simp add: retained_def)

lemma retained_Suc:
  "retained c p (Suc n) =
     (if fst (skip_nucl c p) then retained c (snd (skip_nucl c p)) n
      else Suc (retained c (snd (skip_nucl c p)) n))"
  by (simp add: retained_def)

lemma retained_le: "retained c p n \<le> n"
proof -
  have "length (answers f q n) = n" for f :: "'a \<Rightarrow> bool \<times> 'a" and q
    by (induction n arbitrary: q) simp_all
  then show ?thesis
    unfolding retained_def by (metis length_filter_le)
qed

lemma not_breaks_head:
  assumes "\<not> breaks_from c sq ct i (kc, m)" and "in_window m sq i"
  shows "\<not> (0 < limit m \<and> limit m < delcount m)"
proof
  assume "0 < limit m \<and> limit m < delcount m"
  then have "process_body c sq ct i (kc, m) = Inr (Break (kc, m))"
    by (simp add: process_body_Break)
  moreover have "loop_state c sq ct 0 i (kc, m) = Some (i, (kc, m))"
    by simp
  ultimately have "breaks_from c sq ct i (kc, m)"
    unfolding breaks_from_def using assms(2) by (metis snd_conv)
  with assms(1) show False ..
qed

lemma not_breaks_step:
  assumes "\<not> breaks_from c sq ct i st" and "in_window (snd st) sq i"
    and "process_body c sq ct i st = Inr (Next st')"
  shows "\<not> breaks_from c sq ct (i + 1) st'"
proof
  assume "breaks_from c sq ct (i + 1) st'"
  then obtain n j s where l: "loop_state c sq ct n (i + 1) st' = Some (j, s)"
    and w: "in_window (snd s) sq j" and b: "process_body c sq ct j s = Inr (Break s)"
    unfolding breaks_from_def by blast
  have "loop_state c sq ct (Suc n) i st = Some (j, s)"
    using assms(2,3) l by simp
  with w b have "breaks_from c sq ct i st"
    unfolding breaks_from_def by blast
  with assms(1) show False ..
qed

lemma breaks_within_breaks_from:
  assumes "breaks_within c sq ct n i st"
  shows "breaks_from c sq ct i st"
  using assms
proof (induction n arbitrary: i st)
  case 0
  then show ?case
    by simp
next
  case (Suc n)
  then have w: "in_window (snd st) sq i"
    by (simp split: if_splits)
  show ?case
  proof (cases "process_body c sq ct i st")
    case (Inl e)
    then show ?thesis
      using Suc.prems w by simp
  next
    case (Inr fl)
    show ?thesis
    proof (cases fl)
      case (Break st')
      then have "process_body c sq ct i st = Inr (Break st)"
        using Inr by (cases st) (simp add: process_body_Break)
      moreover have "loop_state c sq ct 0 i st = Some (i, st)"
        by simp
      ultimately show ?thesis
        unfolding breaks_from_def using w by blast
    next
      case (Next st')
      then have "breaks_within c sq ct n (i + 1) st'"
        using Suc.prems w Inr by simp
      then have "breaks_from c sq ct (i + 1) st'"
        by (rule Suc.IH)
      then show ?thesis
        using not_breaks_step [of c sq ct i st st'] w Inr Next by blast
    qed
  qed
qed

lemma loop_state_breaks_within:
  assumes len: "length sq < 2 ^ 63"
  shows "loop_state c sq ct n' i st = Some (j, s) \<Longrightarrow> in_window (snd s) sq j \<Longrightarrow>
    process_body c sq ct j s = Inr (Break s) \<Longrightarrow> unat i \<le> 2 ^ 63 \<Longrightarrow>
    length sq + 1 - unat i \<le> n \<Longrightarrow> breaks_within c sq ct n i st"
proof (induction n' arbitrary: i st n)
  case 0
  then have e: "j = i" "s = st"
    by simp_all
  then have "unat i \<le> length sq"
    using "0.prems"(2,4) len by (simp add: in_window_nat)
  then obtain n1 where "n = Suc n1"
    using "0.prems"(5) by (cases n) simp_all
  then show ?case
    using "0.prems"(2,3) e by simp
next
  case (Suc n')
  from Suc.prems(1) have w: "in_window (snd st) sq i"
    by (simp split: if_splits)
  with Suc.prems(1) obtain st' where b: "process_body c sq ct i st = Inr (Next st')"
    and l: "loop_state c sq ct n' (i + 1) st' = Some (j, s)"
    by (auto split: sum.splits flow.splits)
  have le: "unat i \<le> length sq"
    using w Suc.prems(4) len by (simp add: in_window_nat)
  have si: "unat (i + 1) = unat i + 1"
    using Suc.prems(4) len w by (rule unat_Suc_window)
  obtain n1 where n: "n = Suc n1"
    using le Suc.prems(5) by (cases n) simp_all
  have "unat (i + 1) \<le> 2 ^ 63" and "length sq + 1 - unat (i + 1) \<le> n1"
    using le si len n Suc.prems(5) by simp_all
  with l Suc.prems(2,3) have "breaks_within c sq ct n1 (i + 1) st'"
    by (intro Suc.IH)
  then show ?case
    using n w b by simp
qed

lemma ended_by_limit_iff:
  assumes "length sq < 2 ^ 63"
  shows "ended_by_limit c sq ct m \<longleftrightarrow> breaks_from c sq ct (ucast (k m - 1)) (0, m)"
proof
  assume "ended_by_limit c sq ct m"
  then show "breaks_from c sq ct (ucast (k m - 1)) (0, m)"
    unfolding ended_by_limit_def by (rule breaks_within_breaks_from)
next
  assume "breaks_from c sq ct (ucast (k m - 1)) (0, m)"
  then obtain n j s where "loop_state c sq ct n (ucast (k m - 1)) (0, m) = Some (j, s)"
    and "in_window (snd s) sq j" and "process_body c sq ct j s = Inr (Break s)"
    unfolding breaks_from_def by blast
  then show "ended_by_limit c sq ct m"
    unfolding ended_by_limit_def
    using unat_start_le [of "k m"] by (intro loop_state_breaks_within [OF assms]) simp_all
qed

lemma process_loop_count:
  fixes c :: "('p, 'l) collaborators"
  assumes kpos: "0 < kk" and kmax: "unat kk \<le> 2 ^ 31" and ct: "ksize ct = unat kk"
    and len: "length sq < 2 ^ 63" and i: "unat i \<le> 2 ^ 63"
  shows "k m = kk \<and> delsize m = dsz \<and> unat kk \<le> unat i + 1
      \<and> \<not> breaks_from c sq ct i (kc, m)
    \<longrightarrow> (\<exists>m'. process_loop c sq ct i (kc, m)
               = Some (Inr (kc + of_nat (retained c (sampler m)
                    (length sq + 1 - (unat i + unat kk + unat dsz))) * ucast kk, m'))
            \<and> delcount m' = delcount m + of_nat (retained c (sampler m)
                    (length sq + 1 - (unat i + unat kk + unat dsz)))
            \<and> k m' = kk \<and> delsize m' = dsz)"
    (is "?C i kc m \<longrightarrow> ?R i kc m")
proof -
  let ?r = "\<lambda>i :: ulong. length sq + 1 - (unat i + unat kk + unat dsz)"
  let ?Q = "\<lambda>i (st :: ulong \<times> ('p, 'l) mutator). ?C i (fst st) (snd st) \<longrightarrow> ?R i (fst st) (snd st)"
  have "?Q i (kc, m)"
    using len i
  proof (rule process_loop_induct)
    fix i and st :: "ulong \<times> ('p, 'l) mutator"
    assume i: "unat i \<le> 2 ^ 63"
      and IH: "\<And>st'. in_window (snd st) sq i \<Longrightarrow> ?Q (i + 1) st'"
    obtain kc m where st: "st = (kc, m)"
      by (cases st)
    show "?Q i st"
    proof
      assume C: "?C i (fst st) (snd st)"
      then have f: "k m = kk" "delsize m = dsz"
        and lo: "unat kk \<le> unat i + 1"
        and nb: "\<not> breaks_from c sq ct i (kc, m)"
        using st by simp_all
      show "?R i (fst st) (snd st)"
      proof (cases "in_window m sq i")
        case False
        then have "?r i = 0"
          using f i len by (simp add: in_window_nat)
        moreover have "process_loop c sq ct i (kc, m) = Some (Inr (kc, m))"
          using False by (subst process_loop.simps) simp
        ultimately show ?thesis
          using st f by (simp add: retained_0)
      next
        case w: True
        then have hi: "unat i + unat (k m) + unat (delsize m) \<le> length sq"
          using i len by (simp add: in_window_nat)
        have si: "unat (i + 1) = unat i + 1"
          using i len w by (rule unat_Suc_window)
        have r: "?r i = Suc (?r (i + 1))"
          using hi f si by simp
        let ?p = "snd (skip_nucl c (sampler m))"
        have nobreak: "\<not> (0 < limit m \<and> limit m < delcount m)"
          using nb w by (rule not_breaks_head)
        have wst: "in_window (snd st) sq i"
          using w st by simp
        have lo1: "unat kk \<le> unat (i + 1) + 1"
          using lo si by simp
        show ?thesis
        proof (cases "fst (skip_nucl c (sampler m))")
          case True
          let ?m1 = "m\<lparr>sampler := ?p\<rparr>"
          have b: "process_body c sq ct i (kc, m) = Inr (Next (kc, ?m1))"
            using nobreak True by (rule process_body_skip)
          have unf: "process_loop c sq ct i (kc, m) = process_loop c sq ct (i + 1) (kc, ?m1)"
            using w b by (subst process_loop.simps) simp
          have ret: "retained c (sampler m) (?r i) = retained c ?p (?r (i + 1))"
            using True by (simp only: r retained_Suc if_True)
          have "\<not> breaks_from c sq ct (i + 1) (kc, ?m1)"
            using nb _ b by (rule not_breaks_step) (simp add: w)
          then have C1: "?C (i + 1) kc ?m1"
            using f lo1 by simp
          have "?Q (i + 1) (kc, ?m1)"
            using wst by (rule IH)
          then have "?C (i + 1) kc ?m1 \<longrightarrow> ?R (i + 1) kc ?m1"
            by (simp only: fst_conv snd_conv)
          with C1 have "?R (i + 1) kc ?m1"
            by (rule rev_mp)
          then show ?thesis
            using unf ret st by simp
        next
          case False
          then have skip: "skip_nucl c (sampler m) = (False, ?p)"
            by (simp add: prod_eq_iff)
          from process_body_event [OF nobreak skip _ _ _ _ hi len, of ct kc] kpos kmax ct lo f
          obtain m1 where b: "process_body c sq ct i (kc, m) = Inr (Next (kc + ucast kk, m1))"
            and m1: "k m1 = kk" "delsize m1 = dsz" "delcount m1 = delcount m + 1"
              "sampler m1 = ?p"
            by auto
          have unf: "process_loop c sq ct i (kc, m) = process_loop c sq ct (i + 1) (kc + ucast kk, m1)"
            using w b by (subst process_loop.simps) simp
          let ?n1 = "retained c ?p (?r (i + 1))"
          have ret: "retained c (sampler m) (?r i) = Suc ?n1"
            using False by (simp only: r retained_Suc if_False)
          have "\<not> breaks_from c sq ct (i + 1) (kc + ucast kk, m1)"
            using nb _ b by (rule not_breaks_step) (simp add: w)
          then have C1: "?C (i + 1) (kc + ucast kk) m1"
            using m1 lo1 by simp
          have "?Q (i + 1) (kc + ucast kk, m1)"
            using wst by (rule IH)
          then have "?C (i + 1) (kc + ucast kk) m1 \<longrightarrow> ?R (i + 1) (kc + ucast kk) m1"
            by (simp only: fst_conv snd_conv)
          with C1 have "?R (i + 1) (kc + ucast kk) m1"
            by (rule rev_mp)
          then obtain m' where run: "process_loop c sq ct (i + 1) (kc + ucast kk, m1)
                = Some (Inr (kc + ucast kk + of_nat ?n1 * ucast kk, m'))"
            and m': "delcount m' = delcount m1 + of_nat ?n1" "k m' = kk" "delsize m' = dsz"
            using m1 by auto
          have "kc + ucast kk + of_nat ?n1 * ucast kk = kc + of_nat (Suc ?n1) * (ucast kk :: ulong)"
            and "delcount m1 + of_nat ?n1 = delcount m + of_nat (Suc ?n1)"
            using m1 by (simp_all add: algebra_simps)
          then have "process_loop c sq ct i (kc, m)
              = Some (Inr (kc + of_nat (retained c (sampler m) (?r i)) * ucast kk, m'))"
            and "delcount m' = delcount m + of_nat (retained c (sampler m) (?r i))"
            using unf run ret m' by (simp_all only:)
          then show ?thesis
            using m' st by (simp only: fst_conv snd_conv) blast
        qed
      qed
    qed
  qed
  then show ?thesis
    by simp
qed

lemma event_abund_apply:
  "event_abund ct dsq h b
     = h b + length (filter (\<lambda>kmer. unat (get_count ct (c_str kmer)) = b) (get_kmers ct dsq))"
  by (simp add: event_abund_def foldl_increment)

lemma increment_apply: "increment h v b = h b + (if b = v then 1 else 0)"
  by (simp add: increment_def)

lemma same_change_refl: "same_change st st st' st'"
  by (simp add: same_change_def)

lemma word_Suc_mono:
  assumes "(x :: ulong) \<le> y" and "y \<le> l" and "l \<noteq> - 1"
  shows "x + 1 \<le> y + 1" and "x \<le> y + 1"
proof -
  have "unat l \<noteq> unat (- 1 :: ulong)"
    using assms(3) by (simp only: word_unat_eq_iff not_False_eq_True)
  moreover have "unat l < 2 ^ 64"
    using unsigned_less [of l, where 'a = nat] by simp
  ultimately have l: "unat l + 1 < 2 ^ 64"
    by (simp add: unsigned_minus_1_eq_mask mask_eq_exp_minus_1)
  have xy: "unat x \<le> unat y" and yl: "unat y \<le> unat l"
    using assms(1,2) by (simp_all add: word_le_nat_alt)
  have "unat (y + 1) = unat y + 1" and "unat (x + 1) = unat x + 1"
    using l xy yl by (simp_all add: unat_word_ariths)
  then show "x + 1 \<le> y + 1" and "x \<le> y + 1"
    using xy by (simp_all add: word_le_nat_alt)
qed

lemma not_max_less: "\<not> (- 1 :: ulong) < x"
  by (simp add: not_less)

lemma same_control_no_break:
  assumes R: "same_control c n m m'" and nb': "\<not> (0 < limit m' \<and> limit m' < delcount m')"
  shows "\<not> (0 < limit m \<and> limit m < delcount m)"
proof
  assume a: "0 < limit m \<and> limit m < delcount m"
  have f: "limit m' = limit m" and d: "limit m = - 1 \<or> delcount m \<le> delcount m'"
    using R a by (auto simp: same_control_def)
  from d show False
  proof
    assume "limit m = - 1"
    then show False
      using a not_max_less [of "delcount m"] by simp
  next
    assume "delcount m \<le> delcount m'"
    with a have "limit m < delcount m'"
      by (auto elim: less_le_trans)
    then show False
      using nb' a f by simp
  qed
qed


lemma process_body_simulation:
  fixes c :: "('p, 'l) collaborators"
  assumes R: "same_control c (Suc n) m m'"
    and b: "process_body c sq ct i (kc, m) = Inr (Next st1)"
    and nobreak': "\<not> (0 < limit m' \<and> limit m' < delcount m')"
  shows "\<exists>st1'. process_body c sq ct i (kc', m') = Inr (Next st1')
    \<and> same_control c n (snd st1) (snd st1')
    \<and> (delcount m' = delcount m \<longrightarrow> delcount (snd st1') = delcount (snd st1))
    \<and> (\<forall>r r'. same_change st1 r st1' r' \<longrightarrow> same_change (kc, m) r (kc', m') r')"
proof -
  have f: "k m' = k m" "delsize m' = delsize m" "limit m' = limit m"
    and skip: "fst (skip_nucl c (sampler m')) = fst (skip_nucl c (sampler m))"
    and rest: "answers (skip_nucl c) (snd (skip_nucl c (sampler m'))) n
          = answers (skip_nucl c) (snd (skip_nucl c (sampler m))) n"
    and d: "limit m = 0 \<or> limit m = - 1 \<or> delcount m \<le> delcount m'"
    using R by (simp_all add: same_control_def)
  have nobreak: "\<not> (0 < limit m \<and> limit m < delcount m)"
    using R nobreak' by (rule same_control_no_break)
  show ?thesis
  proof (cases "fst (skip_nucl c (sampler m))")
    case True
    then have "st1 = (kc, m\<lparr>sampler := snd (skip_nucl c (sampler m))\<rparr>)"
      using b process_body_skip [OF nobreak True, of sq ct i kc] by simp
    moreover have "process_body c sq ct i (kc', m')
        = Inr (Next (kc', m'\<lparr>sampler := snd (skip_nucl c (sampler m'))\<rparr>))"
      using nobreak' True skip by (intro process_body_skip) simp_all
    ultimately show ?thesis
      using f d rest by (auto simp: same_control_def same_change_def)
  next
    case False
    from process_body_Next_event [OF b False]
    obtain dsq where dsq: "delseq (k m) (delsize m) sq i = Inr dsq"
      and ok: "length_str dsq = ucast (2 * k m - 1)"
      and nk: "length (get_kmers ct dsq) = unat (k m)"
      by blast
    from process_body_event_gen [OF nobreak False dsq ok nk, of kc] b
    obtain out where st1: "st1 = (kc + ucast (k m),
        m\<lparr>delcount := delcount m + 1,
          abund_hist := event_abund ct dsq (abund_hist m),
          unique_hist := increment (unique_hist m) (event_unique ct dsq),
          sampler := snd (skip_nucl c (sampler m)),
          logger := snd (logger_increment c (logger m)),
          stream := out\<rparr>)"
      by auto
    have "\<not> fst (skip_nucl c (sampler m'))"
      and "delseq (k m') (delsize m') sq i = Inr dsq"
      and "length_str dsq = ucast (2 * k m' - 1)"
      and "length (get_kmers ct dsq) = unat (k m')"
      using False dsq ok nk f skip by simp_all
    from process_body_event_gen [OF nobreak' this, of kc']
    obtain out' where b': "process_body c sq ct i (kc', m') = Inr (Next (kc' + ucast (k m'),
        m'\<lparr>delcount := delcount m' + 1,
          abund_hist := event_abund ct dsq (abund_hist m'),
          unique_hist := increment (unique_hist m') (event_unique ct dsq),
          sampler := snd (skip_nucl c (sampler m')),
          logger := snd (logger_increment c (logger m')),
          stream := out'\<rparr>))"
      by blast
    have d1: "limit m = 0 \<or> limit m = - 1 \<or> delcount m + 1 \<le> delcount m' + 1"
    proof (cases "limit m = 0 \<or> limit m = - 1")
      case True
      then show ?thesis
        by blast
    next
      case False
      then have "delcount m \<le> delcount m'" and "delcount m' \<le> limit m" and "limit m \<noteq> - 1"
        using d nobreak' f by (simp_all add: not_less word_gt_0)
      then show ?thesis
        by (simp add: word_Suc_mono)
    qed
    have ch: "\<forall>r r'. same_change st1 r (kc' + ucast (k m'),
        m'\<lparr>delcount := delcount m' + 1,
          abund_hist := event_abund ct dsq (abund_hist m'),
          unique_hist := increment (unique_hist m') (event_unique ct dsq),
          sampler := snd (skip_nucl c (sampler m')),
          logger := snd (logger_increment c (logger m')),
          stream := out'\<rparr>) r' \<longrightarrow> same_change (kc, m) r (kc', m') r'"
      using st1 f
      by (auto simp: same_change_def event_abund_apply increment_apply algebra_simps)
    have sc: "same_control c n (snd st1) (snd (kc' + ucast (k m'),
        m'\<lparr>delcount := delcount m' + 1,
          abund_hist := event_abund ct dsq (abund_hist m'),
          unique_hist := increment (unique_hist m') (event_unique ct dsq),
          sampler := snd (skip_nucl c (sampler m')),
          logger := snd (logger_increment c (logger m')),
          stream := out'\<rparr>))"
      using f d1 rest by (simp add: same_control_def st1)
    have eq: "delcount m' = delcount m \<longrightarrow> delcount (snd (kc' + ucast (k m'),
        m'\<lparr>delcount := delcount m' + 1,
          abund_hist := event_abund ct dsq (abund_hist m'),
          unique_hist := increment (unique_hist m') (event_unique ct dsq),
          sampler := snd (skip_nucl c (sampler m')),
          logger := snd (logger_increment c (logger m')),
          stream := out'\<rparr>)) = delcount (snd st1)"
      by (simp add: st1)
    from b' sc eq ch show ?thesis
      by blast
  qed
qed

lemma process_loop_simulation:
  fixes c :: "('p, 'l) collaborators"
  assumes len: "length sq < 2 ^ 63" and i: "unat i \<le> 2 ^ 63"
  shows "\<forall>st' r n.
      length sq + 1 - (unat i + unat (k (snd st)) + unat (delsize (snd st))) \<le> n
      \<and> same_control c n (snd st) (snd st')
      \<and> (\<not> breaks_from c sq ct i st' \<or> delcount (snd st') = delcount (snd st))
      \<and> process_loop c sq ct i st = Some (Inr r) \<longrightarrow>
    (\<exists>r'. process_loop c sq ct i st' = Some (Inr r') \<and> same_change st r st' r')"
    (is "?Q i st")
  using len i
proof (rule process_loop_induct)
  fix i and st :: "ulong \<times> ('p, 'l) mutator"
  assume i: "unat i \<le> 2 ^ 63"
    and IH: "\<And>st1. in_window (snd st) sq i \<Longrightarrow> ?Q (i + 1) st1"
  show "?Q i st"
  proof (intro allI impI)
    fix st' r :: "ulong \<times> ('p, 'l) mutator" and n
    assume "length sq + 1 - (unat i + unat (k (snd st)) + unat (delsize (snd st))) \<le> n
      \<and> same_control c n (snd st) (snd st')
      \<and> (\<not> breaks_from c sq ct i st' \<or> delcount (snd st') = delcount (snd st))
      \<and> process_loop c sq ct i st = Some (Inr r)"
    then have n: "length sq + 1 - (unat i + unat (k (snd st)) + unat (delsize (snd st))) \<le> n"
      and R: "same_control c n (snd st) (snd st')"
      and nb: "\<not> breaks_from c sq ct i st' \<or> delcount (snd st') = delcount (snd st)"
      and run: "process_loop c sq ct i st = Some (Inr r)"
      by simp_all
    have l: "limit (snd st') = limit (snd st)"
      using R by (simp add: same_control_def)
    have w': "in_window (snd st') sq i \<longleftrightarrow> in_window (snd st) sq i"
      using R by (simp add: same_control_def in_window_def)
    show "\<exists>r'. process_loop c sq ct i st' = Some (Inr r') \<and> same_change st r st' r'"
    proof (cases "in_window (snd st) sq i")
      case False
      then have "process_loop c sq ct i st = Some (Inr st)"
        and "process_loop c sq ct i st' = Some (Inr st')"
        using w' by (simp_all add: process_loop.simps [of c sq ct i])
      then show ?thesis
        using run by (auto simp: same_change_refl)
    next
      case w: True
      then have unf: "process_loop c sq ct i st =
          (case process_body c sq ct i st of
             Inl e \<Rightarrow> Some (Inl e)
           | Inr (Break s) \<Rightarrow> Some (Inr s)
           | Inr (Next s) \<Rightarrow> process_loop c sq ct (i + 1) s)"
        by (subst process_loop.simps) simp
      have unf': "process_loop c sq ct i st' =
          (case process_body c sq ct i st' of
             Inl e \<Rightarrow> Some (Inl e)
           | Inr (Break s) \<Rightarrow> Some (Inr s)
           | Inr (Next s) \<Rightarrow> process_loop c sq ct (i + 1) s)"
        using w w' by (subst process_loop.simps) simp
      show ?thesis
      proof (cases "0 < limit (snd st') \<and> limit (snd st') < delcount (snd st')")
        case True
        then have "breaks_from c sq ct i st'"
          using w w' not_breaks_head [of c sq ct i "fst st'" "snd st'"] by auto
        then have "delcount (snd st') = delcount (snd st)"
          using nb by simp
        then have "0 < limit (snd st) \<and> limit (snd st) < delcount (snd st)"
          using True l by simp
        then have "process_body c sq ct i st = Inr (Break st)"
          using process_body_Break [of c sq ct i "fst st" "snd st" st] by simp
        then have "r = st"
          using unf run by simp
        moreover have "process_body c sq ct i st' = Inr (Break st')"
          using True process_body_Break [of c sq ct i "fst st'" "snd st'" st'] by simp
        then have "process_loop c sq ct i st' = Some (Inr st')"
          using unf' by simp
        ultimately show ?thesis
          by (auto simp: same_change_refl)
      next
        case nobreak': False
        with R have "\<not> (0 < limit (snd st) \<and> limit (snd st) < delcount (snd st))"
          by (rule same_control_no_break)
        then have nbr: "process_body c sq ct i st \<noteq> Inr (Break s)" for s
          using process_body_Break [of c sq ct i "fst st" "snd st" s] by auto
        obtain st1 where b: "process_body c sq ct i st = Inr (Next st1)"
          and run1: "process_loop c sq ct (i + 1) st1 = Some (Inr r)"
          using unf run nbr by (auto split: sum.splits flow.splits)
        have "unat i + unat (k (snd st)) + unat (delsize (snd st)) \<le> length sq"
          using w i len by (simp add: in_window_nat)
        then obtain n1 where n1: "n = Suc n1"
          and n1le: "length sq - (unat i + unat (k (snd st)) + unat (delsize (snd st))) \<le> n1"
          using n by (cases n) simp_all
        have si: "unat (i + 1) = unat i + 1"
          using i len w by (rule unat_Suc_window)
        from process_body_Next_frame [of c sq ct i "fst st" "snd st" "fst st1" "snd st1"] b
        have "k (snd st1) = k (snd st)" and "delsize (snd st1) = delsize (snd st)"
          by simp_all
        then have n1': "length sq + 1 - (unat (i + 1) + unat (k (snd st1)) + unat (delsize (snd st1)))
            \<le> n1"
          using n1le si by simp
        have RS: "same_control c (Suc n1) (snd st) (snd st')"
          using R n1 by simp
        from process_body_simulation [OF RS _ nobreak', of sq ct i "fst st" st1 "fst st'"] b
        obtain st1' where b': "process_body c sq ct i st' = Inr (Next st1')"
          and R1: "same_control c n1 (snd st1) (snd st1')"
          and eq: "delcount (snd st') = delcount (snd st) \<longrightarrow>
                   delcount (snd st1') = delcount (snd st1)"
          and ch: "\<And>r r'. same_change st1 r st1' r' \<Longrightarrow> same_change st r st' r'"
          by auto
        have nb1: "\<not> breaks_from c sq ct (i + 1) st1' \<or> delcount (snd st1') = delcount (snd st1)"
        proof (cases "breaks_from c sq ct i st'")
          case True
          then show ?thesis
            using nb eq by simp
        next
          case False
          then have "\<not> breaks_from c sq ct (i + 1) st1'"
            using _ b' by (rule not_breaks_step) (simp add: w w')
          then show ?thesis ..
        qed
        from IH [OF w] n1' R1 nb1 run1
        obtain r' where run1': "process_loop c sq ct (i + 1) st1' = Some (Inr r')"
          and "same_change st1 r st1' r'"
          by blast
        then have "same_change st r st' r'"
          by (intro ch)
        moreover have "process_loop c sq ct i st' = Some (Inr r')"
          using unf' b' run1' by simp
        ultimately show ?thesis
          by blast
      qed
    qed
  qed
qed

lemma remaining_le_windows:
  "length sq + 1 - (unat (ucast (k m - 1) :: ulong) + unat (k m) + unat (delsize m))
     \<le> windows m sq"
proof (cases "0 < k m")
  case True
  then have "0 < unat (k m)"
    by (simp add: unat_gt_0)
  then show ?thesis
    using unat_start [OF True] by (simp add: windows_def)
next
  case False
  then have "k m = 0"
    by (simp add: word_gt_0)
  then show ?thesis
    by (simp add: windows_def)
qed

lemmas run_defs = process_def process_loop.simps in_window_def length_str_def process_body_def
  MutatorDel_def quiet_def blank_table_def delseq_def substr_def Deletion_def get_kmers_def
  get_count_def c_str_def Let_def increment_def empty_hist_def

lemma take_drop_substring:
  assumes "pos + n \<le> length s"
  shows "take n (drop pos s) = substring s pos n"
  using assms by (auto simp: substring_def intro!: nth_equalityI)

lemma digit_no_newline:
  assumes "d < 10"
  shows "digit d \<noteq> newline"
proof -
  have "digit d \<in> set ''0123456789''"
    unfolding digit_def using assms by (intro nth_mem) simp
  then show ?thesis
    by (auto simp: newline_def)
qed

lemma decimal_no_newline: "newline \<notin> set (decimal n)"
proof (induction n rule: decimal.induct)
  case (1 n)
  show ?case
  proof (cases "n < 10")
    case True
    then show ?thesis
      using digit_no_newline [of n] by (subst decimal.simps) auto
  next
    case False
    then show ?thesis
      using "1.IH" digit_no_newline [of "n mod 10"] by (subst decimal.simps) auto
  qed
qed

lemma spaced_no_newline:
  assumes "\<forall>x \<in> set xs. newline \<notin> set x"
  shows "newline \<notin> set (spaced xs)"
  using assms by (cases xs) (auto simp: newline_def)

section \<open>The claims\<close>

text \<open>
  Throughout, \<open>length sq < 2 ^ 63\<close> says that the sequence is a string that can exist:
  \<^verbatim>\<open>std::string::max_size()\<close> is below \<open>2 ^ 63\<close>.
\<close>

text \<open>
  C1: the worked example. For \<open>k = 3\<close>, \<open>d = 2\<close> and the sequence \<open>AAACCCGGGTTT\<close> the
  loop starts at \<open>i = 2\<close>, its condition holds at \<open>i = 2, ..., 7\<close> and fails at \<open>i = 8\<close>;
  at \<open>i = 2\<close> the junction is \<open>substr(0, 2) = AA\<close> followed by \<open>substr(4, 3) = CCG\<close>,
  that is \<open>AACCG\<close>, of length \<open>5 = 2k - 1\<close>. A run that skips nothing and reports every
  event handles the six deletion points in this order, as the junctions in the text
  of the sink show, and returns \<open>6 * 3 = 18\<close>.
\<close>

theorem example_run:
  "(ucast (k (MutatorDel 3 2 () 16 0 ()) - 1) :: ulong) = 2
   \<and> map (in_window (MutatorDel 3 2 () 16 0 ()) ''AAACCCGGGTTT'') [2, 3, 4, 5, 6, 7, 8]
       = [True, True, True, True, True, True, False]
   \<and> substr ''AAACCCGGGTTT'' 0 2 = Inr ''AA''
   \<and> substr ''AAACCCGGGTTT'' 4 3 = Inr ''CCG''
   \<and> map (delseq 3 2 ''AAACCCGGGTTT'') [2, 3, 4, 5, 6, 7]
       = [Inr ''AACCG'', Inr ''AACGG'', Inr ''ACGGG'', Inr ''CCGGT'', Inr ''CCGTT'', Inr ''CGTTT'']
   \<and> length ''AACCG'' = 2 * unat (k (MutatorDel 3 2 () 16 0 ())) - 1
   \<and> map_option (map_sum id (\<lambda>(n, m). (n, get_mut_count m, stream m)))
        (process chatty ''AAACCCGGGTTT'' (blank_table 3) (MutatorDel 3 2 () 16 0 ()))
       = Some (Inr (18, 6,
           concat (map (\<lambda>dsq. ''# ...processed  Mb of sequence'' @ [newline]
                              @ ''>'' @ dsq @ [newline] @ ''   |'' @ [newline]
                              @ ''0 0 0'' @ [newline] @ ''# '' @ [newline] @ ''# '' @ [newline])
                   [''AACCG'', ''AACGG'', ''ACGGG'', ''CCGGT'', ''CCGTT'', ''CGTTT''])))"
  by (simp add: process_def process_loop.simps in_window_def length_str_def process_body_def
      MutatorDel_def chatty_def blank_table_def delseq_def substr_def Deletion_def get_kmers_def
      get_count_def c_str_def Let_def get_mut_count_def report_def print_def print_spaces.simps
      print_abunds.simps decimal.simps digit_def)

text \<open>
  C2 says that at every deletion point of the loop range the junction has length
  exactly \<open>2k - 1\<close> and that the assertion on that length (line 29) never fires, for any
  sequence. The assertion computes \<open>2 * k - 1\<close> in \<^verbatim>\<open>uint\<close>, while the size of the junction
  is a \<^verbatim>\<open>size_t\<close>: for \<open>k = 2 ^ 31 + 1\<close>, \<open>d = 1\<close> and a sequence of \<open>2 ^ 32 + 2\<close>
  characters the junction at the first deletion point \<open>i = 2 ^ 31\<close> has
  \<open>2k - 1 = 2 ^ 32 + 1\<close> characters, the right-hand side of the assertion wraps around
  to 1, and \<open>process\<close> stops in the assertion although the junction has the length that
  the assertion is there to check.
\<close>

theorem junction_length_assertion_overflow:
  "delseq 2147483649 1 (replicate 4294967298 CHR ''A'') 2147483648
     = Inr (replicate 4294967297 CHR ''A'')
   \<and> length (replicate 4294967297 CHR ''A'') = 2 * unat (2147483649 :: uint) - 1
   \<and> length_str (replicate 4294967297 CHR ''A'') \<noteq> ucast (2 * (2147483649 :: uint) - 1)
   \<and> process quiet (replicate 4294967298 CHR ''A'') (blank_table 2147483649)
        (MutatorDel 2147483649 1 () 16 0 ())
       = Some (Inl Junction_length_assertion)"
proof -
  have d: "delseq 2147483649 1 (replicate 4294967298 CHR ''A'') 2147483648
     = Inr (replicate 4294967297 CHR ''A'')"
    by (simp add: delseq_def substr_def replicate_add [symmetric])
  have a: "length_str (replicate 4294967297 CHR ''A'') \<noteq> ucast (2 * (2147483649 :: uint) - 1)"
    by (simp add: length_str_def)
  have w: "in_window (MutatorDel 2147483649 1 () 16 0 ()) (replicate 4294967298 CHR ''A'') 2147483648"
    by (simp add: in_window_def length_str_def MutatorDel_def)
  have b: "process_body quiet (replicate 4294967298 CHR ''A'') (blank_table 2147483649) 2147483648
      (0, MutatorDel 2147483649 1 () 16 0 ()) = Inl Junction_length_assertion"
    using d a by (simp add: process_body_def quiet_def MutatorDel_def)
  have "process quiet (replicate 4294967298 CHR ''A'') (blank_table 2147483649)
        (MutatorDel 2147483649 1 () 16 0 ())
       = Some (Inl Junction_length_assertion)"
    unfolding process_def
    apply (subst process_loop.simps)
    using w b apply (simp add: MutatorDel_def)
    done
  with d a show ?thesis
    by simp
qed

text \<open>
  C3: for a junction of length \<open>2k - 1\<close>, and a counting table of the same k-mer
  size, the constructor extracts exactly \<open>k\<close> k-mers; it looks them up from left to
  right, the abundance vector holds the \<open>k\<close> abundances in that order, the abundance
  histogram is incremented at each of them in turn, and the unique-count histogram is
  incremented once, at the number of k-mers of abundance zero. The tally is an
  \<^verbatim>\<open>int\<close> in the code; it never exceeds the number of k-mers.
\<close>

theorem Deletion_tallies:
  assumes "length sq = 2 * unat (k m) - 1" and "0 < k m" and "ksize ct = unat (k m)"
  shows "length (get_kmers ct sq) = unat (k m)
    \<and> Deletion sq m ct =
        Inr (\<lparr>sequence = sq, abunds = map (\<lambda>kmer. get_count ct (c_str kmer)) (get_kmers ct sq)\<rparr>,
             m\<lparr>abund_hist := foldl (\<lambda>h kmer. increment h (unat (get_count ct (c_str kmer))))
                                (abund_hist m) (get_kmers ct sq),
               unique_hist := increment (unique_hist m)
                 (length (filter (\<lambda>kmer. get_count ct (c_str kmer) = 0) (get_kmers ct sq)))\<rparr>)
    \<and> length (map (\<lambda>kmer. get_count ct (c_str kmer)) (get_kmers ct sq)) = unat (k m)"
proof -
  have "0 < unat (k m)"
    using assms(2) by (simp add: unat_gt_0)
  then have n: "length (get_kmers ct sq) = unat (k m)"
    using assms(1,3) by (simp add: length_get_kmers)
  then show ?thesis
    using Deletion_eq [OF n] by simp
qed

theorem Deletion_tallies_witness:
  "length ''AACCG'' = 2 * unat (k (MutatorDel 3 2 () 16 0 ())) - 1
   \<and> 0 < k (MutatorDel 3 2 () 16 0 ())
   \<and> ksize example_table = unat (k (MutatorDel 3 2 () 16 0 ()))
   \<and> get_kmers example_table ''AACCG'' = [''AAC'', ''ACC'', ''CCG'']
   \<and> Deletion ''AACCG'' (MutatorDel 3 2 () 16 0 ()) example_table =
        Inr (\<lparr>sequence = ''AACCG'', abunds = [5, 0, 2]\<rparr>,
             (MutatorDel 3 2 () 16 0 ())
               \<lparr>abund_hist := increment (increment (increment empty_hist 5) 0) 2,
                 unique_hist := increment empty_hist 1\<rparr>)"
proof -
  have g: "get_kmers example_table ''AACCG'' = [''AAC'', ''ACC'', ''CCG'']"
    by (simp add: get_kmers_def example_table_def upt_rec)
  show ?thesis
    using Deletion_tallies [of "''AACCG''" "MutatorDel 3 2 () 16 0 ()" example_table]
    by (simp add: g) (simp add: MutatorDel_def example_table_def get_count_def c_str_def)
qed

text \<open>
  C4: for every sequence shorter than \<open>2k + d - 1\<close>, \<open>process\<close> returns 0 and has no
  side effect: the mutator, with its deletion counter and both histograms, is
  returned as it was.
\<close>

theorem process_short_sequence:
  assumes "length sq < 2 * unat (k m) + unat (delsize m) - 1"
  shows "process c sq ct m = Some (Inr (0, m))"
proof -
  have len: "length sq < 2 ^ 63"
    using assms unat_uint_less [of "k m"] unat_uint_less [of "delsize m"] by simp
  have "\<not> unat (ucast (k m - 1) :: ulong) + unat (k m) + unat (delsize m) \<le> length sq"
  proof (cases "0 < k m")
    case True
    then have "0 < unat (k m)"
      by (simp add: unat_gt_0)
    then show ?thesis
      using assms True by (simp add: unat_start)
  next
    case False
    then have "k m = 0"
      by (simp add: word_gt_0)
    then show ?thesis
      using assms by (simp add: unat_ucast_uint)
  qed
  then have "\<not> in_window m sq (ucast (k m - 1))"
    using in_window_nat [OF unat_start_le len, where m = m and kk1 = "k m"] by simp
  then show ?thesis
    by (simp add: process_def process_loop.simps)
qed

theorem process_short_sequence_witness:
  "length ''AAACCC'' < 2 * unat (k (MutatorDel 3 2 () 16 0 ())) + unat (delsize (MutatorDel 3 2 () 16 0 ())) - 1
   \<and> process quiet ''AAACCC'' (blank_table 3) (MutatorDel 3 2 () 16 0 ())
       = Some (Inr (0, MutatorDel 3 2 () 16 0 ()))"
  using process_short_sequence [of "''AAACCC''" "MutatorDel 3 2 () 16 0 ()" quiet "blank_table 3"]
  by (simp add: MutatorDel_def)

text \<open>
  C5: with a limit \<open>L > 0\<close> and a deletion counter that starts at 0, the counter is at
  most \<open>L + 1\<close> at the top of every iteration the loop reaches and when \<open>process\<close>
  returns; and from a state whose counter exceeds \<open>L\<close> the next pass through the body
  breaks at once, leaving the state as it is, so the loop returns that state.
\<close>

theorem deletion_counter_bound:
  fixes c :: "('p, 'l) collaborators"
  assumes lim: "0 < limit m" and dc: "delcount m = 0" and len: "length sq < 2 ^ 63"
  shows "(\<forall>n j kc m'. loop_state c sq ct n (ucast (k m - 1)) (0, m) = Some (j, kc, m') \<longrightarrow>
            unat (delcount m') \<le> unat (limit m) + 1)
    \<and> (\<exists>r. process c sq ct m = Some r
          \<and> (\<forall>kc m'. r = Inr (kc, m') \<longrightarrow> unat (delcount m') \<le> unat (limit m) + 1))
    \<and> (\<forall>i kc m'. limit m' = limit m \<and> limit m < delcount m' \<longrightarrow>
          process_body c sq ct i (kc, m') = Inr (Break (kc, m'))
          \<and> process_loop c sq ct i (kc, m') = Some (Inr (kc, m')))"
proof (intro conjI)
  show "\<forall>n j kc m'. loop_state c sq ct n (ucast (k m - 1)) (0, m) = Some (j, kc, m') \<longrightarrow>
      unat (delcount m') \<le> unat (limit m) + 1"
    using loop_state_delcount_bound [of c sq ct _ _ 0 m] lim dc by simp
next
  let ?i0 = "ucast (k m - 1) :: ulong"
  let ?P = "\<lambda>(j :: ulong) (s :: ulong \<times> ('p, 'l) mutator).
      limit (snd s) = limit m \<and> unat (delcount (snd s)) \<le> unat (limit m) + 1"
  have i0: "unat ?i0 \<le> 2 ^ 63"
    by (rule unat_start_le)
  have init: "?P ?i0 (0, m)"
    using dc by simp
  obtain r where r: "process c sq ct m = Some r"
    using process_loop_returns [OF len i0, of c ct "(0, m)"] by (auto simp: process_def)
  have "unat (delcount m') \<le> unat (limit m) + 1" if "r = Inr (kc, m')" for kc m'
  proof -
    have run: "process_loop c sq ct ?i0 (0, m) = Some (Inr (kc, m'))"
      using r that by (simp add: process_def)
    have "\<exists>j. ?P j (kc, m') \<and> unat j \<le> 2 ^ 63
        \<and> (in_window (snd (kc, m')) sq j \<longrightarrow>
             process_body c sq ct j (kc, m') = Inr (Break (kc, m')))"
    proof (rule process_loop_Inr [where P = ?P, OF len i0 init run])
      fix j and s s' :: "ulong \<times> ('p, 'l) mutator"
      assume P: "?P j s" and b: "process_body c sq ct j s = Inr (Next s')"
      from P lim have "0 < limit (snd s)"
        by simp
      with b process_body_delcount_bound [of c sq ct j "fst s" "snd s" "fst s'" "snd s'"]
      show "?P (j + 1) s'"
        using P by simp
    qed
    then show ?thesis
      by simp
  qed
  then show "\<exists>r. process c sq ct m = Some r
      \<and> (\<forall>kc m'. r = Inr (kc, m') \<longrightarrow> unat (delcount m') \<le> unat (limit m) + 1)"
    using r by blast
next
  show "\<forall>i kc m'. limit m' = limit m \<and> limit m < delcount m' \<longrightarrow>
      process_body c sq ct i (kc, m') = Inr (Break (kc, m'))
      \<and> process_loop c sq ct i (kc, m') = Some (Inr (kc, m'))"
    using lim by (simp add: process_loop_over_limit process_body_Break)
qed

theorem deletion_counter_bound_witness:
  "0 < limit (MutatorDel 3 2 () 16 1 ()) \<and> delcount (MutatorDel 3 2 () 16 1 ()) = 0
   \<and> length ''AAACCCGGGTTT'' < 2 ^ 63
   \<and> map_option (map_prod id (map_prod id delcount))
        (loop_state quiet ''AAACCCGGGTTT'' (blank_table 3) (Suc (Suc 0)) 2 (0, MutatorDel 3 2 () 16 1 ()))
       = Some (4, 6, 2)
   \<and> map_option (map_sum id (map_prod id delcount))
        (process quiet ''AAACCCGGGTTT'' (blank_table 3) (MutatorDel 3 2 () 16 1 ()))
       = Some (Inr (6, 2))
   \<and> unat (2 :: ulong) \<le> unat (limit (MutatorDel 3 2 () 16 1 ())) + 1"
proof -
  have run: "map_option (map_prod id (map_prod id delcount))
        (loop_state quiet ''AAACCCGGGTTT'' (blank_table 3) (Suc (Suc 0)) 2 (0, MutatorDel 3 2 () 16 1 ()))
       = Some (4, 6, 2)
   \<and> map_option (map_sum id (map_prod id delcount))
        (process quiet ''AAACCCGGGTTT'' (blank_table 3) (MutatorDel 3 2 () 16 1 ()))
       = Some (Inr (6, 2))"
    by (simp add: process_def process_loop.simps in_window_def length_str_def process_body_def
      MutatorDel_def quiet_def blank_table_def delseq_def substr_def Deletion_def get_kmers_def
      get_count_def c_str_def Let_def)
  have hyp: "0 < limit (MutatorDel 3 2 () 16 1 ()) \<and> delcount (MutatorDel 3 2 () 16 1 ()) = 0
      \<and> length ''AAACCCGGGTTT'' < 2 ^ 63"
    by (simp add: MutatorDel_def)
  have "unat (2 :: ulong) \<le> unat (limit (MutatorDel 3 2 () 16 1 ())) + 1"
    using deletion_counter_bound [of "MutatorDel 3 2 () 16 1 ()" "''AAACCCGGGTTT''" quiet "blank_table 3"]
      hyp run
    by (auto simp: MutatorDel_def)
  with hyp run show ?thesis
    by blast
qed

text \<open>
  C6: from a deletion counter of 0, when the limit does not end the loop early (no pass
  through the body ends in \<^verbatim>\<open>break\<close>), \<open>process\<close> returns \<open>get_mut_count * k\<close>, computed
  in \<^verbatim>\<open>ulong\<close> (so modulo \<open>2 ^ 64\<close>), where \<open>get_mut_count\<close> is the deletion counter and
  equals the number of deletion points that the policy retains among those of the loop
  range; a pass through the body adds \<open>k\<close> to the total for a retained deletion point
  and nothing for a skipped one. This covers the run in which the counter passes the
  limit only at the last deletion point: with the limit 5 and six deletion points, all
  retained, the loop ends by its condition with the counter at 6; and so it does with
  the limit 2 when the policy retains the second, the fourth and the sixth of them.
\<close>

theorem process_total_is_count_times_k:
  fixes c :: "('p, 'l) collaborators"
  assumes dc: "delcount m = 0"
    and nobreak: "\<not> ended_by_limit c sq ct m"
    and kpos: "0 < k m" and kmax: "unat (k m) \<le> 2 ^ 31" and ct: "ksize ct = unat (k m)"
    and len: "length sq < 2 ^ 63"
  shows "(\<exists>n m'. process c sq ct m = Some (Inr (n, m'))
            \<and> n = get_mut_count m' * ucast (k m)
            \<and> unat (get_mut_count m') = retained c (sampler m) (windows m sq)
            \<and> unat n = (retained c (sampler m) (windows m sq) * unat (k m)) mod 2 ^ 64
            \<and> get_mut_count m' = delcount m')
    \<and> (\<forall>i kc m1 kc' m1'. process_body c sq ct i (kc, m1) = Inr (Next (kc', m1')) \<longrightarrow>
          kc' = (if fst (skip_nucl c (sampler m1)) then kc else kc + ucast (k m1)))"
proof
  let ?i0 = "ucast (k m - 1) :: ulong"
  let ?K = "unat (k m)" and ?D = "unat (delsize m)"
  have K: "0 < ?K"
    using kpos by (simp add: unat_gt_0)
  have i0: "unat ?i0 = ?K - 1"
    using kpos by (rule unat_start)
  have i0le: "unat ?i0 \<le> 2 ^ 63"
    by (rule unat_start_le)
  have r: "length sq + 1 - (unat ?i0 + ?K + ?D) = windows m sq"
    using i0 K by (simp add: windows_def)
  let ?n = "retained c (sampler m) (windows m sq)"
  have "\<not> breaks_from c sq ct ?i0 (0, m)"
    using nobreak by (simp add: ended_by_limit_iff [OF len])
  moreover have "?K \<le> unat ?i0 + 1"
    using i0 K by simp
  ultimately have C: "k m = k m \<and> delsize m = delsize m \<and> ?K \<le> unat ?i0 + 1
      \<and> \<not> breaks_from c sq ct ?i0 (0, m)"
    by (intro conjI refl)
  from process_loop_count [OF kpos kmax ct len i0le, of m "delsize m" c 0] C
  obtain m' where run: "process_loop c sq ct ?i0 (0, m) = Some (Inr (0 + of_nat ?n * ucast (k m), m'))"
    and m': "delcount m' = delcount m + of_nat ?n"
    by (simp only: r) blast
  have "?n \<le> windows m sq"
    by (rule retained_le)
  then have "?n < 2 ^ 64"
    using len by (simp add: windows_def)
  then have n: "unat (of_nat ?n :: ulong) = ?n"
    by (simp add: unat_of_nat)
  then have "unat (of_nat ?n * ucast (k m) :: ulong) = (?n * ?K) mod 2 ^ 64"
    by (simp add: unat_word_ariths unat_ucast_uint)
  with n show "\<exists>n m'. process c sq ct m = Some (Inr (n, m'))
            \<and> n = get_mut_count m' * ucast (k m)
            \<and> unat (get_mut_count m') = ?n
            \<and> unat n = (?n * ?K) mod 2 ^ 64
            \<and> get_mut_count m' = delcount m'"
    using run m' dc by (simp add: process_def get_mut_count_def)
next
  show "\<forall>i kc m1 kc' m1'. process_body c sq ct i (kc, m1) = Inr (Next (kc', m1')) \<longrightarrow>
          kc' = (if fst (skip_nucl c (sampler m1)) then kc else kc + ucast (k m1))"
    using process_body_Next_frame [of c sq ct] by (auto split: if_splits)
qed

theorem process_total_is_count_times_k_witness:
  "delcount (MutatorDel 3 2 () 16 5 ()) = 0
   \<and> \<not> ended_by_limit quiet ''AAACCCGGGTTT'' (blank_table 3) (MutatorDel 3 2 () 16 5 ())
   \<and> 0 < k (MutatorDel 3 2 () 16 5 ()) \<and> unat (k (MutatorDel 3 2 () 16 5 ())) \<le> 2 ^ 31
   \<and> ksize (blank_table 3) = unat (k (MutatorDel 3 2 () 16 5 ()))
   \<and> length ''AAACCCGGGTTT'' < 2 ^ 63
   \<and> limit (MutatorDel 3 2 () 16 5 ()) = 5
   \<and> windows (MutatorDel 3 2 () 16 5 ()) ''AAACCCGGGTTT'' = 6
   \<and> retained quiet () 6 = 6
   \<and> (\<exists>m'. process quiet ''AAACCCGGGTTT'' (blank_table 3) (MutatorDel 3 2 () 16 5 ())
          = Some (Inr (18, m')) \<and> get_mut_count m' = 6)
   \<and> delcount (MutatorDel 3 2 () 16 2 True) = 0
   \<and> \<not> ended_by_limit every_other ''AAACCCGGGTTT'' (blank_table 3) (MutatorDel 3 2 () 16 2 True)
   \<and> answers (skip_nucl every_other) True 6 = [True, False, True, False, True, False]
   \<and> retained every_other True 6 = 3
   \<and> (\<exists>m'. process every_other ''AAACCCGGGTTT'' (blank_table 3) (MutatorDel 3 2 () 16 2 True)
          = Some (Inr (9, m')) \<and> get_mut_count m' = 3)"
proof -
  let ?M = "MutatorDel 3 2 () 16 5 ()" and ?N = "MutatorDel 3 2 () 16 2 True"
  have nb: "\<not> ended_by_limit quiet ''AAACCCGGGTTT'' (blank_table 3) ?M"
    by (simp add: ended_by_limit_def run_defs)
  have hyp: "delcount ?M = 0 \<and> 0 < k ?M \<and> unat (k ?M) \<le> 2 ^ 31
      \<and> ksize (blank_table 3) = unat (k ?M) \<and> length ''AAACCCGGGTTT'' < 2 ^ 63
      \<and> limit ?M = 5"
    by (simp add: MutatorDel_def blank_table_def)
  have w: "windows ?M ''AAACCCGGGTTT'' = 6"
    by (simp add: windows_def MutatorDel_def)
  have "answers (skip_nucl quiet) () (Suc (Suc (Suc (Suc (Suc (Suc 0))))))
      = [False, False, False, False, False, False]"
    by (simp add: quiet_def)
  then have ret: "retained quiet () 6 = 6"
    by (simp add: retained_def eval_nat_numeral)
  have s: "sampler ?M = ()"
    by simp
  from process_total_is_count_times_k [of ?M quiet "''AAACCCGGGTTT''" "blank_table 3"] hyp nb
  obtain n m' where "process quiet ''AAACCCGGGTTT'' (blank_table 3) ?M = Some (Inr (n, m'))"
    and "n = get_mut_count m' * ucast (k ?M)"
    and "unat (get_mut_count m') = retained quiet (sampler ?M) (windows ?M ''AAACCCGGGTTT'')"
    by blast
  then have run: "process quiet ''AAACCCGGGTTT'' (blank_table 3) ?M
        = Some (Inr (get_mut_count m' * ucast (k ?M), m'))"
    and "unat (get_mut_count m') = 6"
    using w ret s by simp_all
  then have "get_mut_count m' = 6"
    by (simp add: word_unat_eq_iff)
  then have first: "\<exists>m'. process quiet ''AAACCCGGGTTT'' (blank_table 3) ?M = Some (Inr (18, m'))
      \<and> get_mut_count m' = 6"
    using run by (auto simp: MutatorDel_def)
  have nb': "\<not> ended_by_limit every_other ''AAACCCGGGTTT'' (blank_table 3) ?N"
    by (simp add: ended_by_limit_def run_defs every_other_def)
  have hyp': "delcount ?N = 0 \<and> 0 < k ?N \<and> unat (k ?N) \<le> 2 ^ 31
      \<and> ksize (blank_table 3) = unat (k ?N)"
    by (simp add: MutatorDel_def blank_table_def)
  have w': "windows ?N ''AAACCCGGGTTT'' = 6"
    by (simp add: windows_def MutatorDel_def)
  have a': "answers (skip_nucl every_other) True 6 = [True, False, True, False, True, False]"
    by (simp add: every_other_def eval_nat_numeral)
  then have ret': "retained every_other True 6 = 3"
    by (simp add: retained_def)
  have s': "sampler ?N = True"
    by (simp add: MutatorDel_def)
  from process_total_is_count_times_k [of ?N every_other "''AAACCCGGGTTT''" "blank_table 3"]
    hyp hyp' nb'
  obtain n m'' where "process every_other ''AAACCCGGGTTT'' (blank_table 3) ?N = Some (Inr (n, m''))"
    and "n = get_mut_count m'' * ucast (k ?N)"
    and "unat (get_mut_count m'') = retained every_other (sampler ?N) (windows ?N ''AAACCCGGGTTT'')"
    by blast
  then have run': "process every_other ''AAACCCGGGTTT'' (blank_table 3) ?N
        = Some (Inr (get_mut_count m'' * ucast (k ?N), m''))"
    and "unat (get_mut_count m'') = 3"
    using w' ret' s' by simp_all
  then have "get_mut_count m'' = 3"
    by (simp add: word_unat_eq_iff)
  then have second: "\<exists>m'. process every_other ''AAACCCGGGTTT'' (blank_table 3) ?N = Some (Inr (9, m'))
      \<and> get_mut_count m' = 3"
    using run' by (auto simp: MutatorDel_def)
  from hyp nb w ret first hyp' nb' a' ret' second show ?thesis
    by blast
qed

text \<open>
  C7, as the code has it: at a deletion point \<open>i\<close> of the loop range, the left flank is
  the substring of length \<open>k - 1\<close> that starts at position \<open>i - k + 1\<close>, so it ends at
  position \<open>i - 1\<close>, just before the deletion point; the right flank is the substring
  of length \<open>k\<close> that starts at position \<open>i + d\<close>; the junction is the left flank
  followed by the right flank.
\<close>

theorem delseq_flanks:
  assumes "0 < kk" and "unat kk \<le> unat i + 1"
    and "unat i + unat kk + unat dsz \<le> length sq" and "length sq < 2 ^ 63"
  shows "delseq kk dsz sq i =
    Inr (substring sq (unat i + 1 - unat kk) (unat kk - 1) @ substring sq (unat i + unat dsz) (unat kk))"
proof -
  have "0 < unat kk"
    using assms(1) by (simp add: unat_gt_0)
  then have "unat i + 1 - unat kk + (unat kk - 1) \<le> length sq"
    and "unat i + unat dsz + unat kk \<le> length sq"
    using assms(2,3) by simp_all
  then show ?thesis
    using delseq_nat [OF assms] by (simp only: take_drop_substring)
qed

theorem delseq_flanks_witness:
  "delseq 3 2 ''AAACCCGGGTTT'' 3
     = Inr (substring ''AAACCCGGGTTT'' 1 2 @ substring ''AAACCCGGGTTT'' 5 3)
   \<and> substring ''AAACCCGGGTTT'' 1 2 = ''AA'' \<and> substring ''AAACCCGGGTTT'' 5 3 = ''CGG''"
  using delseq_flanks [of 3 3 2 "''AAACCCGGGTTT''"]
  by (simp add: substring_def upt_rec)

text \<open>
  The claim C7 as it is worded fails: at \<open>i = 3\<close> of the example sequence the left
  flank that ends at position 3 inclusive is \<open>AC\<close>, while the code takes \<open>AA\<close>, the
  characters at positions 1 and 2.
\<close>

theorem left_flank_counterexample:
  "delseq 3 2 ''AAACCCGGGTTT'' 3 = Inr ''AACGG''
   \<and> claimed_junction 3 2 ''AAACCCGGGTTT'' 3 = ''ACCGG''
   \<and> delseq 3 2 ''AAACCCGGGTTT'' 3 \<noteq> Inr (claimed_junction 3 2 ''AAACCCGGGTTT'' 3)"
  by (simp add: delseq_def substr_def claimed_junction_def substring_def upt_rec)

text \<open>
  C8: \<open>print\<close> appends three lines to the sink and returns nothing else: the marker
  \<open>>\<close> and the junction; \<open>k\<close> spaces and a vertical bar; the first \<open>k\<close> abundances
  in decimal, separated by single spaces. The second and the third line hold no
  line break of their own. For \<open>k = 3\<close> and the abundances 5, 0, 2 the second line
  is three spaces and a bar and the third is \<open>5 0 2\<close>.
\<close>

theorem print_three_lines:
  assumes "unat (k m) \<le> length (abunds del)"
  shows "print del m out =
      Inr (out @ (CHR ''>'' # sequence del) @ [newline]
           @ (replicate (unat (k m)) CHR '' '' @ [CHR ''|'']) @ [newline]
           @ spaced (map (\<lambda>a. decimal (unat a)) (take (unat (k m)) (abunds del))) @ [newline])
    \<and> newline \<notin> set (replicate (unat (k m)) CHR '' '' @ [CHR ''|''])
    \<and> newline \<notin> set (spaced (map (\<lambda>a. decimal (unat a)) (take (unat (k m)) (abunds del))))"
proof -
  have "newline \<notin> set (spaced (map (\<lambda>a. decimal (unat a)) (take (unat (k m)) (abunds del))))"
    by (rule spaced_no_newline) (simp add: decimal_no_newline)
  moreover have "newline \<notin> set (replicate (unat (k m)) CHR '' '' @ [CHR ''|''])"
    by (auto simp: newline_def)
  ultimately show ?thesis
    using print_eq [OF assms] by simp
qed

theorem print_three_lines_witness:
  "unat (k (MutatorDel 3 2 () 16 0 ())) \<le> length (abunds \<lparr>sequence = ''AACCG'', abunds = [5, 0, 2]\<rparr>)
   \<and> print \<lparr>sequence = ''AACCG'', abunds = [5, 0, 2]\<rparr> (MutatorDel 3 2 () 16 0 ()) []
       = Inr (''>AACCG'' @ [newline] @ ''   |'' @ [newline] @ ''5 0 2'' @ [newline])"
proof -
  have d: "decimal 5 = ''5''" "decimal 0 = ''0''" "decimal 2 = ''2''"
    by (simp_all add: decimal.simps digit_def)
  have r: "replicate 3 CHR '' '' = ''   ''" and t: "take 3 [5, 0, 2 :: uint] = [5, 0, 2]"
    by (simp_all add: numeral_3_eq_3)
  show ?thesis
    using print_three_lines [of "MutatorDel 3 2 () 16 0 ()" "\<lparr>sequence = ''AACCG'', abunds = [5, 0, 2]\<rparr>" "[]"]
    by (simp add: MutatorDel_def d r t)
qed

text \<open>
  C9, as the code has it: when the limit does not end the second call early (or the
  first call has left the deletion counter as it was), and the sampling policy keeps no
  state or gives at the deletion points of the second sequence the answers that it
  gives a call on that sequence alone, a call on a second sequence with the mutator
  that a first call has returned handles the events that a call on the second sequence
  alone handles, and in every bucket the histograms after both calls are those after
  the first call plus those after the second call alone minus the initial ones. For a
  mutator that starts with empty histograms this is the bucket-wise sum of the two
  single runs.
\<close>

theorem histograms_accumulate:
  fixes c :: "('p, 'l) collaborators"
  assumes policy: "(\<forall>p. snd (skip_nucl c p) = p)
      \<or> answers (skip_nucl c) (sampler m1) (windows m0 sq2)
          = answers (skip_nucl c) (sampler m0) (windows m0 sq2)"
    and nobreak: "\<not> ended_by_limit c sq2 ct m1 \<or> delcount m1 = delcount m0"
    and len1: "length sq1 < 2 ^ 63" and len2: "length sq2 < 2 ^ 63"
    and run1: "process c sq1 ct m0 = Some (Inr (n1, m1))"
    and run2: "process c sq2 ct m0 = Some (Inr (n2, m2))"
  shows "\<exists>m12. process c sq2 ct m1 = Some (Inr (n2, m12))
    \<and> (\<forall>b. abund_hist m12 b = abund_hist m1 b + abund_hist m2 b - abund_hist m0 b)
    \<and> (\<forall>b. unique_hist m12 b = unique_hist m1 b + unique_hist m2 b - unique_hist m0 b)"
proof -
  let ?i0 = "ucast (k m0 - 1) :: ulong"
  let ?P = "\<lambda>(j :: ulong) (s :: ulong \<times> ('p, 'l) mutator).
      k (snd s) = k m0 \<and> delsize (snd s) = delsize m0 \<and> limit (snd s) = limit m0
      \<and> ((\<forall>p. snd (skip_nucl c p) = p) \<longrightarrow> sampler (snd s) = sampler m0)
      \<and> (limit m0 = 0 \<or> limit m0 = - 1 \<or> delcount m0 \<le> delcount (snd s))"
  have i0: "unat ?i0 \<le> 2 ^ 63"
    by (rule unat_start_le)
  have r1: "process_loop c sq1 ct ?i0 (0, m0) = Some (Inr (n1, m1))"
    using run1 by (simp add: process_def)
  have "\<exists>j. ?P j (n1, m1) \<and> unat j \<le> 2 ^ 63
      \<and> (in_window (snd (n1, m1)) sq1 j \<longrightarrow>
           process_body c sq1 ct j (n1, m1) = Inr (Break (n1, m1)))"
  proof (rule process_loop_Inr [where P = ?P, OF len1 i0 _ r1])
    show "?P ?i0 (0, m0)"
      by simp
  next
    fix j and s s' :: "ulong \<times> ('p, 'l) mutator"
    assume P: "?P j s" and b: "process_body c sq1 ct j s = Inr (Next s')"
    from process_body_Next_frame [of c sq1 ct j "fst s" "snd s" "fst s'" "snd s'"] b
    have f: "k (snd s') = k (snd s)" "delsize (snd s') = delsize (snd s)"
      "limit (snd s') = limit (snd s)" "sampler (snd s') = snd (skip_nucl c (sampler (snd s)))"
      and nb: "\<not> (0 < limit (snd s) \<and> limit (snd s) < delcount (snd s))"
      and dc: "delcount (snd s') = delcount (snd s) \<or> delcount (snd s') = delcount (snd s) + 1"
      by (auto split: if_splits)
    have "limit m0 = 0 \<or> limit m0 = - 1 \<or> delcount m0 \<le> delcount (snd s')"
    proof (cases "limit m0 = 0 \<or> limit m0 = - 1")
      case True
      then show ?thesis
        by blast
    next
      case False
      then have "delcount m0 \<le> delcount (snd s)" and "delcount (snd s) \<le> limit m0"
        and "limit m0 \<noteq> - 1"
        using P nb by (simp_all add: not_less word_gt_0)
      then have "delcount m0 \<le> delcount (snd s) + 1"
        by (rule word_Suc_mono(2))
      then show ?thesis
        using dc \<open>delcount m0 \<le> delcount (snd s)\<close> by auto
    qed
    then show "?P (j + 1) s'"
      using P f by simp
  qed
  then have R: "same_control c (windows m0 sq2) (snd (0 :: ulong, m0)) (snd (0 :: ulong, m1))"
    using policy by (auto simp: same_control_def)
  have k1: "k m1 = k m0"
    using R by (simp add: same_control_def)
  have n: "length sq2 + 1
      - (unat ?i0 + unat (k (snd (0 :: ulong, m0))) + unat (delsize (snd (0 :: ulong, m0))))
      \<le> windows m0 sq2"
    using remaining_le_windows [of sq2 m0] by simp
  have nb: "\<not> breaks_from c sq2 ct ?i0 (0, m1)
      \<or> delcount (snd (0 :: ulong, m1)) = delcount (snd (0 :: ulong, m0))"
    using nobreak k1 by (simp add: ended_by_limit_iff [OF len2])
  have r2: "process_loop c sq2 ct ?i0 (0, m0) = Some (Inr (n2, m2))"
    using run2 by (simp add: process_def)
  from process_loop_simulation [OF len2 i0, of "(0, m0)" c ct] n R nb r2
  obtain r' where run: "process_loop c sq2 ct ?i0 (0, m1) = Some (Inr r')"
    and ch: "same_change (0, m0) (n2, m2) (0, m1) r'"
    by blast
  have "fst r' = n2"
    using ch by (simp add: same_change_def)
  then have "r' = (n2, snd r')"
    by (simp add: prod_eq_iff)
  then have "process c sq2 ct m1 = Some (Inr (n2, snd r'))"
    using run k1 by (simp add: process_def)
  moreover have "abund_hist (snd r') b = abund_hist m1 b + abund_hist m2 b - abund_hist m0 b" for b
  proof -
    have "abund_hist (snd r') b + abund_hist m0 b = abund_hist m2 b + abund_hist m1 b"
      using ch by (simp add: same_change_def)
    then show ?thesis
      by simp
  qed
  moreover have "unique_hist (snd r') b = unique_hist m1 b + unique_hist m2 b - unique_hist m0 b" for b
  proof -
    have "unique_hist (snd r') b + unique_hist m0 b = unique_hist m2 b + unique_hist m1 b"
      using ch by (simp add: same_change_def)
    then show ?thesis
      by simp
  qed
  ultimately show ?thesis
    by blast
qed

theorem histograms_accumulate_witness:
  "(\<forall>p. snd (skip_nucl quiet p) = p)
   \<and> length ''ACGTA'' < 2 ^ 63 \<and> length ''TTGCA'' < 2 ^ 63
   \<and> (\<exists>n1 m1 n2 m2 m12.
         process quiet ''ACGTA'' (blank_table 2) (MutatorDel 2 1 () 16 100 ()) = Some (Inr (n1, m1))
       \<and> process quiet ''TTGCA'' (blank_table 2) (MutatorDel 2 1 () 16 100 ()) = Some (Inr (n2, m2))
       \<and> limit m1 = 100 \<and> delcount m1 = 2
       \<and> \<not> ended_by_limit quiet ''TTGCA'' (blank_table 2) m1
       \<and> process quiet ''TTGCA'' (blank_table 2) m1 = Some (Inr (n2, m12))
       \<and> abund_hist m1 0 = 4 \<and> abund_hist m2 0 = 4 \<and> abund_hist m12 0 = 8
       \<and> unique_hist m1 2 = 2 \<and> unique_hist m2 2 = 2 \<and> unique_hist m12 2 = 4)"
proof -
  let ?M = "MutatorDel 2 1 () 16 100 ()" and ?ct = "blank_table 2"
  have hyp: "(\<forall>p. snd (skip_nucl quiet p) = p)
      \<and> length ''ACGTA'' < 2 ^ 63 \<and> length ''TTGCA'' < 2 ^ 63"
    by (simp add: quiet_def)
  have "\<exists>n1 m1. process quiet ''ACGTA'' ?ct ?M = Some (Inr (n1, m1))
      \<and> k m1 = 2 \<and> delsize m1 = 1 \<and> limit m1 = 100 \<and> delcount m1 = 2
      \<and> abund_hist m1 0 = 4 \<and> unique_hist m1 2 = 2"
    by (simp add: run_defs)
  then obtain n1 m1 where run1: "process quiet ''ACGTA'' ?ct ?M = Some (Inr (n1, m1))"
    and f1: "k m1 = 2" "delsize m1 = 1" "limit m1 = 100" "delcount m1 = 2"
    and h1: "abund_hist m1 0 = 4" "unique_hist m1 2 = 2"
    by blast
  have "\<exists>n2 m2. process quiet ''TTGCA'' ?ct ?M = Some (Inr (n2, m2))
      \<and> abund_hist m2 0 = 4 \<and> unique_hist m2 2 = 2"
    by (simp add: run_defs)
  then obtain n2 m2 where run2: "process quiet ''TTGCA'' ?ct ?M = Some (Inr (n2, m2))"
    and h2: "abund_hist m2 0 = 4" "unique_hist m2 2 = 2"
    by blast
  have h0: "abund_hist ?M 0 = 0" "unique_hist ?M 2 = 0"
    by (simp_all add: MutatorDel_def empty_hist_def)
  have nb: "\<not> ended_by_limit quiet ''TTGCA'' ?ct m1"
    using f1 by (simp add: ended_by_limit_def run_defs)
  from histograms_accumulate [of quiet m1 ?M "''TTGCA''" ?ct "''ACGTA''" n1 n2 m2] hyp nb run1 run2
  obtain m12 where run12: "process quiet ''TTGCA'' ?ct m1 = Some (Inr (n2, m12))"
    and a: "abund_hist m12 0 = abund_hist m1 0 + abund_hist m2 0 - abund_hist ?M 0"
    and u: "unique_hist m12 2 = unique_hist m1 2 + unique_hist m2 2 - unique_hist ?M 2"
    by blast
  have "abund_hist m12 0 = 8" and "unique_hist m12 2 = 4"
    using a u h0 h1 h2 by simp_all
  with hyp run1 run2 run12 h1 h2 f1 nb show ?thesis
    by blast
qed

text \<open>
  The claim C9 as it is worded fails in three ways. The deletion counter is carried
  over from the first call, so with the limit 1 the second call breaks at its first
  deletion point and adds nothing, while a run of its own adds four counts to bucket 0
  of the abundance histogram. A policy that skips every other deletion point is, after
  a first call with one deletion point, about to skip, so the second call skips the
  deletion point that a run of its own retains. And from an initial state whose
  histograms are not empty (here the state after one call) the initial counts enter
  the sum of the two single runs twice, but the state after both calls once.
\<close>

theorem histograms_accumulate_counterexample:
  "map_option (map_sum id (\<lambda>(n, m). (n, delcount m, abund_hist m 0)))
     (process quiet ''ACGTA'' (blank_table 2) (MutatorDel 2 1 () 16 1 ()))
     = Some (Inr (4, 2, 4))
   \<and> map_option (map_sum id (\<lambda>(n, m). (n, delcount m, abund_hist m 0)))
     (process quiet ''TTGCA'' (blank_table 2) (MutatorDel 2 1 () 16 1 ()))
     = Some (Inr (4, 2, 4))
   \<and> map_option (map_sum id (\<lambda>(n, m). (n, delcount m, abund_hist m 0)))
     (again quiet ''TTGCA'' (blank_table 2)
        (process quiet ''ACGTA'' (blank_table 2) (MutatorDel 2 1 () 16 1 ())))
     = Some (Inr (0, 2, 4))
   \<and> (4 :: nat) \<noteq> 4 + 4
   \<and> map_option (map_sum id (\<lambda>(n, m). (n, sampler m, abund_hist m 0)))
     (process every_other ''ACGT'' (blank_table 2) (MutatorDel 2 1 () 16 0 False))
     = Some (Inr (2, True, 2))
   \<and> map_option (map_sum id (\<lambda>(n, m). (n, sampler m, abund_hist m 0)))
     (process every_other ''TTGC'' (blank_table 2) (MutatorDel 2 1 () 16 0 False))
     = Some (Inr (2, True, 2))
   \<and> map_option (map_sum id (\<lambda>(n, m). (n, sampler m, abund_hist m 0)))
     (again every_other ''TTGC'' (blank_table 2)
        (process every_other ''ACGT'' (blank_table 2) (MutatorDel 2 1 () 16 0 False)))
     = Some (Inr (0, False, 2))
   \<and> (2 :: nat) \<noteq> 2 + 2
   \<and> map_option (map_sum id (\<lambda>(n, m). abund_hist m 0))
     (process quiet ''ACGTA'' (blank_table 2) (MutatorDel 2 1 () 16 0 ()))
     = Some (Inr 4)
   \<and> map_option (map_sum id (\<lambda>(n, m). abund_hist m 0))
     (again quiet ''ACGTA'' (blank_table 2)
        (process quiet ''ACGTA'' (blank_table 2) (MutatorDel 2 1 () 16 0 ())))
     = Some (Inr 8)
   \<and> map_option (map_sum id (\<lambda>(n, m). abund_hist m 0))
     (again quiet ''TTGCA'' (blank_table 2)
        (process quiet ''ACGTA'' (blank_table 2) (MutatorDel 2 1 () 16 0 ())))
     = Some (Inr 8)
   \<and> map_option (map_sum id (\<lambda>(n, m). abund_hist m 0))
     (again quiet ''TTGCA'' (blank_table 2)
        (again quiet ''ACGTA'' (blank_table 2)
           (process quiet ''ACGTA'' (blank_table 2) (MutatorDel 2 1 () 16 0 ()))))
     = Some (Inr 12)
   \<and> (12 :: nat) \<noteq> 8 + 8"
  by (simp add: again_def run_defs every_other_def)

text \<open>
  C10: with a limit \<open>L > 0\<close>, a deletion counter that starts at 0, a policy that never
  skips and at least \<open>L + 2\<close> deletion points, \<open>process\<close> handles exactly \<open>L + 1\<close>
  events: it returns \<open>(L + 1) * k\<close> with the counter at \<open>L + 1\<close>, and the pass through
  the body at the next deletion point, which is in the window, is the one that breaks.
\<close>

theorem process_stops_after_limit_plus_one:
  fixes c :: "('p, 'l) collaborators"
  assumes lim: "0 < limit m" and dc: "delcount m = 0"
    and noskip: "\<forall>p. \<not> fst (skip_nucl c p)"
    and win: "unat (limit m) + 2 \<le> windows m sq"
    and kpos: "0 < k m" and kmax: "unat (k m) \<le> 2 ^ 31" and ct: "ksize ct = unat (k m)"
    and len: "length sq < 2 ^ 63"
  shows "\<exists>m'. process c sq ct m = Some (Inr ((limit m + 1) * ucast (k m), m'))
    \<and> get_mut_count m' = limit m + 1
    \<and> unat (get_mut_count m') = unat (limit m) + 1
    \<and> in_window m' sq (ucast (k m - 1) + (limit m + 1))
    \<and> process_body c sq ct (ucast (k m - 1) + (limit m + 1)) ((limit m + 1) * ucast (k m), m')
        = Inr (Break ((limit m + 1) * ucast (k m), m'))"
proof -
  let ?i0 = "ucast (k m - 1) :: ulong"
  let ?K = "unat (k m)" and ?D = "unat (delsize m)" and ?L = "unat (limit m)"
  have K: "0 < ?K"
    using kpos by (simp add: unat_gt_0)
  have room: "2 * ?K + ?D + ?L \<le> length sq"
    using win by (simp add: windows_def)
  then have limmax: "?L < 2 ^ 63"
    using len by simp
  have i0: "unat ?i0 = ?K - 1"
    using kpos by (rule unat_start)
  have i0le: "unat ?i0 \<le> 2 ^ 63"
    by (rule unat_start_le)
  have C: "k m = k m \<and> delsize m = delsize m \<and> limit m = limit m
      \<and> unat (delcount m) \<le> ?L + 1 \<and> ?K \<le> unat ?i0 + 1
      \<and> unat ?i0 + ?K + ?D + (?L + 1 - unat (delcount m)) \<le> length sq"
    using dc i0 K room by simp
  from process_loop_limit [OF kpos kmax ct len noskip lim limmax i0le, of m "delsize m" 0] C
  obtain m' where run: "process_loop c sq ct ?i0 (0, m)
        = Some (Inr (0 + of_nat (?L + 1 - unat (delcount m)) * ucast (k m), m'))"
    and m': "delcount m' = limit m + 1" "k m' = k m" "delsize m' = delsize m" "limit m' = limit m"
    by blast
  have l1: "unat (limit m + 1) = ?L + 1"
    using limmax by (simp add: unat_word_ariths)
  have "(of_nat (?L + 1 - unat (delcount m)) :: ulong) = limit m + 1"
    using dc by simp
  then have p: "process c sq ct m = Some (Inr ((limit m + 1) * ucast (k m), m'))"
    using run by (simp add: process_def)
  have j: "unat (?i0 + (limit m + 1)) = ?K - 1 + (?L + 1)"
    using i0 l1 limmax unat_uint_less [of "k m"] by (simp add: unat_word_ariths)
  have w: "in_window m' sq (?i0 + (limit m + 1))"
    using j room K m' len limmax unat_uint_less [of "k m"] by (simp add: in_window_nat)
  have "limit m' < delcount m'"
    using m' l1 by (simp add: word_less_nat_alt)
  then have b: "process_body c sq ct (?i0 + (limit m + 1)) ((limit m + 1) * ucast (k m), m')
      = Inr (Break ((limit m + 1) * ucast (k m), m'))"
    using lim m' by (simp add: process_body_Break)
  show ?thesis
    using p m' l1 w b by (simp add: get_mut_count_def)
qed

theorem process_stops_after_limit_plus_one_witness:
  "0 < limit (MutatorDel 3 2 () 16 2 ()) \<and> delcount (MutatorDel 3 2 () 16 2 ()) = 0
   \<and> unat (limit (MutatorDel 3 2 () 16 2 ())) + 2 \<le> windows (MutatorDel 3 2 () 16 2 ()) ''AAACCCGGGTTT''
   \<and> 0 < k (MutatorDel 3 2 () 16 2 ()) \<and> unat (k (MutatorDel 3 2 () 16 2 ())) \<le> 2 ^ 31
   \<and> ksize (blank_table 3) = unat (k (MutatorDel 3 2 () 16 2 ()))
   \<and> length ''AAACCCGGGTTT'' < 2 ^ 63
   \<and> map_option (map_sum id (map_prod id get_mut_count))
        (process quiet ''AAACCCGGGTTT'' (blank_table 3) (MutatorDel 3 2 () 16 2 ()))
       = Some (Inr (9, 3))"
proof -
  have hyp: "0 < limit (MutatorDel 3 2 () 16 2 ()) \<and> delcount (MutatorDel 3 2 () 16 2 ()) = 0
   \<and> unat (limit (MutatorDel 3 2 () 16 2 ())) + 2 \<le> windows (MutatorDel 3 2 () 16 2 ()) ''AAACCCGGGTTT''
   \<and> 0 < k (MutatorDel 3 2 () 16 2 ()) \<and> unat (k (MutatorDel 3 2 () 16 2 ())) \<le> 2 ^ 31
   \<and> ksize (blank_table 3) = unat (k (MutatorDel 3 2 () 16 2 ()))
   \<and> length ''AAACCCGGGTTT'' < 2 ^ 63"
    by (simp add: MutatorDel_def windows_def blank_table_def)
  have noskip: "\<forall>p. \<not> fst (skip_nucl quiet p)"
    by (simp add: quiet_def)
  from process_stops_after_limit_plus_one [of "MutatorDel 3 2 () 16 2 ()" quiet "''AAACCCGGGTTT''" "blank_table 3"]
    hyp noskip
  obtain m' where "process quiet ''AAACCCGGGTTT'' (blank_table 3) (MutatorDel 3 2 () 16 2 ())
      = Some (Inr ((limit (MutatorDel 3 2 () 16 2 ()) + 1) * ucast (k (MutatorDel 3 2 () 16 2 ())), m'))"
    and "get_mut_count m' = limit (MutatorDel 3 2 () 16 2 ()) + 1"
    by blast
  then have "map_option (map_sum id (map_prod id get_mut_count))
        (process quiet ''AAACCCGGGTTT'' (blank_table 3) (MutatorDel 3 2 () 16 2 ()))
       = Some (Inr (9, 3))"
    by (simp add: MutatorDel_def)
  with hyp show ?thesis
    by simp
qed

section \<open>Further properties\<close>

text \<open>
  Whenever \<open>process\<close> returns from a deletion counter of 0, also after a \<^verbatim>\<open>break\<close> or
  with skipped deletion points, the total it returns is \<open>get_mut_count * k\<close>, computed
  in \<^verbatim>\<open>ulong\<close>.
\<close>

theorem process_total_any_return:
  fixes c :: "('p, 'l) collaborators"
  assumes dc: "delcount m = 0" and len: "length sq < 2 ^ 63"
    and run: "process c sq ct m = Some (Inr (n, m'))"
  shows "n = get_mut_count m' * ucast (k m)"
proof -
  let ?i0 = "ucast (k m - 1) :: ulong"
  let ?P = "\<lambda>(j :: ulong) (s :: ulong \<times> ('p, 'l) mutator).
      k (snd s) = k m \<and> fst s = delcount (snd s) * ucast (k m)"
  have i0: "unat ?i0 \<le> 2 ^ 63"
    by (rule unat_start_le)
  have r: "process_loop c sq ct ?i0 (0, m) = Some (Inr (n, m'))"
    using run by (simp add: process_def)
  have "\<exists>j. ?P j (n, m') \<and> unat j \<le> 2 ^ 63
      \<and> (in_window (snd (n, m')) sq j \<longrightarrow> process_body c sq ct j (n, m') = Inr (Break (n, m')))"
  proof (rule process_loop_Inr [where P = ?P, OF len i0 _ r])
    show "?P ?i0 (0, m)"
      using dc by simp
  next
    fix j and s s' :: "ulong \<times> ('p, 'l) mutator"
    assume P: "?P j s" and b: "process_body c sq ct j s = Inr (Next s')"
    from process_body_Next_frame [of c sq ct j "fst s" "snd s" "fst s'" "snd s'"] b
    have f: "k (snd s') = k (snd s)"
      and g: "if fst (skip_nucl c (sampler (snd s)))
        then fst s' = fst s \<and> snd s' = (snd s)\<lparr>sampler := snd (skip_nucl c (sampler (snd s)))\<rparr>
        else fst s' = fst s + ucast (k (snd s)) \<and> delcount (snd s') = delcount (snd s) + 1"
      by simp_all
    show "?P (j + 1) s'"
    proof (cases "fst (skip_nucl c (sampler (snd s)))")
      case True
      then have "fst s' = fst s" and "delcount (snd s') = delcount (snd s)"
        using g by simp_all
      then show ?thesis
        using P f by simp
    next
      case False
      then show ?thesis
        using P f g by (simp add: algebra_simps)
    qed
  qed
  then show ?thesis
    by (simp add: get_mut_count_def)
qed

theorem process_total_any_return_witness:
  "delcount (MutatorDel 3 2 () 16 2 ()) = 0 \<and> length ''AAACCCGGGTTT'' < 2 ^ 63
   \<and> (\<exists>m'. process quiet ''AAACCCGGGTTT'' (blank_table 3) (MutatorDel 3 2 () 16 2 ()) = Some (Inr (9, m'))
         \<and> get_mut_count m' = 3
         \<and> (9 :: ulong) = get_mut_count m' * ucast (k (MutatorDel 3 2 () 16 2 ())))"
proof -
  let ?M = "MutatorDel 3 2 () 16 2 ()"
  have hyp: "delcount ?M = 0 \<and> length ''AAACCCGGGTTT'' < 2 ^ 63"
    by (simp add: MutatorDel_def)
  have "\<exists>m'. process quiet ''AAACCCGGGTTT'' (blank_table 3) ?M = Some (Inr (9, m'))
      \<and> get_mut_count m' = 3"
    by (simp add: run_defs get_mut_count_def)
  then obtain m' where run: "process quiet ''AAACCCGGGTTT'' (blank_table 3) ?M = Some (Inr (9, m'))"
    and g: "get_mut_count m' = 3"
    by blast
  from process_total_any_return [of ?M "''AAACCCGGGTTT''" quiet "blank_table 3" 9 m'] hyp run
  have "(9 :: ulong) = get_mut_count m' * ucast (k ?M)"
    by blast
  with hyp run g show ?thesis
    by blast
qed

text \<open>
  \<open>process\<close> returns, normally or through an assertion, for every sequence that a
  string can hold.
\<close>

theorem process_returns:
  fixes c :: "('p, 'l) collaborators"
  assumes "length sq < 2 ^ 63"
  shows "\<exists>r. process c sq ct m = Some r"
  unfolding process_def using assms unat_start_le by (rule process_loop_returns)

theorem process_returns_witness:
  "length ''AAACCCGGGTTT'' < 2 ^ 63
   \<and> (\<exists>r. process chatty ''AAACCCGGGTTT'' example_table (MutatorDel 3 2 () 16 0 ()) = Some r)"
  using process_returns [of "''AAACCCGGGTTT''" chatty example_table "MutatorDel 3 2 () 16 0 ()"]
  by simp

text \<open>
  For \<open>0 < k \<le> 2 ^ 31\<close> the assertion on the length of the junction cannot fire: for
  \<open>k > 0\<close>, at every deletion point of the loop range the junction has length exactly
  \<open>2k - 1\<close>, whatever \<open>d\<close> and the length of the sequence are; and for \<open>k \<le> 2 ^ 31\<close> the
  assertion on that length holds there, and \<open>process\<close> returns, never through that
  assertion.
\<close>

theorem junction_length_assertion_holds:
  fixes c :: "('p, 'l) collaborators"
  assumes kpos: "0 < k m" and len: "length sq < 2 ^ 63"
  shows "(\<forall>i. unat (k m) \<le> unat i + 1 \<and> unat i + unat (k m) + unat (delsize m) \<le> length sq \<longrightarrow>
            (\<exists>dsq. delseq (k m) (delsize m) sq i = Inr dsq
               \<and> length dsq = 2 * unat (k m) - 1
               \<and> (unat (k m) \<le> 2 ^ 31 \<longrightarrow> length_str dsq = ucast (2 * k m - 1))))
    \<and> (unat (k m) \<le> 2 ^ 31 \<longrightarrow>
          (\<exists>r. process c sq ct m = Some r \<and> r \<noteq> Inl Junction_length_assertion))"
proof
  show "\<forall>i. unat (k m) \<le> unat i + 1 \<and> unat i + unat (k m) + unat (delsize m) \<le> length sq \<longrightarrow>
      (\<exists>dsq. delseq (k m) (delsize m) sq i = Inr dsq
         \<and> length dsq = 2 * unat (k m) - 1
         \<and> (unat (k m) \<le> 2 ^ 31 \<longrightarrow> length_str dsq = ucast (2 * k m - 1)))"
  proof (intro allI impI)
    fix i :: ulong
    assume "unat (k m) \<le> unat i + 1 \<and> unat i + unat (k m) + unat (delsize m) \<le> length sq"
    then have lo: "unat (k m) \<le> unat i + 1"
      and hi: "unat i + unat (k m) + unat (delsize m) \<le> length sq"
      by simp_all
    let ?dsq = "junction (unat (k m)) (unat (delsize m)) sq (unat i)"
    have K: "0 < unat (k m)"
      using kpos by (simp add: unat_gt_0)
    have "delseq (k m) (delsize m) sq i = Inr ?dsq"
      using delseq_nat [OF kpos lo hi len] by (simp add: junction_def)
    moreover have l: "length ?dsq = 2 * unat (k m) - 1"
      using K lo hi by (simp add: length_junction)
    moreover have "length_str ?dsq = ucast (2 * k m - 1)" if "unat (k m) \<le> 2 ^ 31"
      using kpos that l by (rule assertion_holds)
    ultimately show "\<exists>dsq. delseq (k m) (delsize m) sq i = Inr dsq
         \<and> length dsq = 2 * unat (k m) - 1
         \<and> (unat (k m) \<le> 2 ^ 31 \<longrightarrow> length_str dsq = ucast (2 * k m - 1))"
      by blast
  qed
next
  show "unat (k m) \<le> 2 ^ 31 \<longrightarrow>
      (\<exists>r. process c sq ct m = Some r \<and> r \<noteq> Inl Junction_length_assertion)"
  proof
    assume kmax: "unat (k m) \<le> 2 ^ 31"
    let ?i0 = "ucast (k m - 1) :: ulong"
    let ?P = "\<lambda>(j :: ulong) (s :: ulong \<times> ('p, 'l) mutator).
        k (snd s) = k m \<and> delsize (snd s) = delsize m \<and> unat (k m) \<le> unat j + 1"
    have i0: "unat ?i0 \<le> 2 ^ 63"
      by (rule unat_start_le)
    have init: "?P ?i0 (0, m)"
      using kpos by (simp add: unat_start)
    obtain r where r: "process c sq ct m = Some r"
      using process_loop_returns [OF len i0, of c ct "(0, m)"] by (auto simp: process_def)
    have "r \<noteq> Inl Junction_length_assertion"
    proof
      assume "r = Inl Junction_length_assertion"
      then have run: "process_loop c sq ct ?i0 (0, m) = Some (Inl Junction_length_assertion)"
        using r by (simp add: process_def)
      have "\<exists>j s. ?P j s \<and> unat j \<le> 2 ^ 63 \<and> in_window (snd s) sq j
          \<and> process_body c sq ct j s = Inl Junction_length_assertion"
      proof (rule process_loop_Inl [where P = ?P, OF len i0 init run])
        fix j and s s' :: "ulong \<times> ('p, 'l) mutator"
        assume P: "?P j s" and j: "unat j \<le> 2 ^ 63" and w: "in_window (snd s) sq j"
          and b: "process_body c sq ct j s = Inr (Next s')"
        have "unat (j + 1) = unat j + 1"
          using j len w by (rule unat_Suc_window)
        moreover have "k (snd s') = k (snd s) \<and> delsize (snd s') = delsize (snd s)"
          using process_body_Next_frame [of c sq ct j "fst s" "snd s" "fst s'" "snd s'"] b
          by simp
        ultimately show "?P (j + 1) s'"
          using P by simp
      qed
      then obtain j s where P: "?P j s" and j: "unat j \<le> 2 ^ 63" and w: "in_window (snd s) sq j"
        and b: "process_body c sq ct j s = Inl Junction_length_assertion"
        by blast
      have "unat j + unat (k (snd s)) + unat (delsize (snd s)) \<le> length sq"
        using w j len by (simp add: in_window_nat)
      then have "process_body c sq ct j (fst s, snd s) \<noteq> Inl Junction_length_assertion"
        using P kpos kmax len by (intro process_body_no_junction_assertion) simp_all
      then show False
        using b by simp
    qed
    then show "\<exists>r. process c sq ct m = Some r \<and> r \<noteq> Inl Junction_length_assertion"
      using r by blast
  qed
qed

theorem junction_length_assertion_holds_witness:
  "0 < k (MutatorDel 3 2 () 16 0 ()) \<and> length ''AAACCCGGGTTT'' < 2 ^ 63
   \<and> unat (k (MutatorDel 3 2 () 16 0 ())) \<le> unat (2 :: ulong) + 1
   \<and> unat (2 :: ulong) + unat (k (MutatorDel 3 2 () 16 0 ())) + unat (delsize (MutatorDel 3 2 () 16 0 ()))
       \<le> length ''AAACCCGGGTTT''
   \<and> unat (k (MutatorDel 3 2 () 16 0 ())) \<le> 2 ^ 31
   \<and> (\<exists>dsq. delseq 3 2 ''AAACCCGGGTTT'' 2 = Inr dsq \<and> length dsq = 5
          \<and> length_str dsq = ucast (2 * (3 :: uint) - 1))
   \<and> (\<exists>r. process quiet ''AAACCCGGGTTT'' (blank_table 3) (MutatorDel 3 2 () 16 0 ()) = Some r
         \<and> r \<noteq> Inl Junction_length_assertion)"
proof -
  let ?M = "MutatorDel 3 2 () 16 0 ()"
  have hyp: "0 < k ?M \<and> length ''AAACCCGGGTTT'' < 2 ^ 63
      \<and> unat (k ?M) \<le> unat (2 :: ulong) + 1
      \<and> unat (2 :: ulong) + unat (k ?M) + unat (delsize ?M) \<le> length ''AAACCCGGGTTT''
      \<and> unat (k ?M) \<le> 2 ^ 31"
    by (simp add: MutatorDel_def)
  note t = junction_length_assertion_holds [of ?M "''AAACCCGGGTTT''" quiet "blank_table 3"]
  from t hyp have "\<exists>dsq. delseq (k ?M) (delsize ?M) ''AAACCCGGGTTT'' 2 = Inr dsq
      \<and> length dsq = 2 * unat (k ?M) - 1
      \<and> (unat (k ?M) \<le> 2 ^ 31 \<longrightarrow> length_str dsq = ucast (2 * k ?M - 1))"
    by blast
  then have a: "\<exists>dsq. delseq 3 2 ''AAACCCGGGTTT'' 2 = Inr dsq \<and> length dsq = 5
      \<and> length_str dsq = ucast (2 * (3 :: uint) - 1)"
    by (simp add: MutatorDel_def)
  from t hyp have b: "\<exists>r. process quiet ''AAACCCGGGTTT'' (blank_table 3) ?M = Some r
      \<and> r \<noteq> Inl Junction_length_assertion"
    by blast
  from hyp a b show ?thesis
    by blast
qed

end
